theory Spec2Isabelle
  imports Main "HOL-Library.Word" "HOL-Library.Sublist"
begin

section \<open>Request controller (controllers/requestController.ts)\<close>

text \<open>
  The controller is asynchronous TypeScript. JavaScript runs one continuation at a time,
  so the code between two \<^verbatim>\<open>await\<close>s is atomic. Each call of \<^verbatim>\<open>runCore\<close> is an
  activation (a task) whose program counter names the \<^verbatim>\<open>await\<close> it is suspended at; an
  event of the environment (a command of the user, or the settling of an awaited promise)
  runs one atomic piece of code. \<^verbatim>\<open>HttpRequest\<close> objects live in a store indexed by
  their identity, because \<^verbatim>\<open>cancel\<close> and \<^verbatim>\<open>runCore\<close> communicate through the object.
\<close>

subsection \<open>Data\<close>

type_synonym ref = nat

type_synonym TextDocument = nat

type_synonym ViewColumn = int

datatype HttpResponse = HttpResponse nat

text \<open>Modelled from the spec: class \<^verbatim>\<open>HttpRequest\<close> (models/httpRequest) is not among the
  sources; the fields are those the controller reads, and the cancellation flag is the
  "flag on the originating request object" of the spec.\<close>

record HttpRequest =
  name :: "string option"
  scripts :: "string option list option"
  tests :: "string option"
  isCancelled :: bool

text \<open>Modelled from the spec: \<^verbatim>\<open>HttpRequest.cancel()\<close> sets the flag on the object.\<close>

definition request_cancel :: "HttpRequest \<Rightarrow> HttpRequest" where
  "request_cancel rq = rq\<lparr>isCancelled := True\<rparr>"

record IRestClientSettings =
  previewColumn :: ViewColumn
  previewResponseInUntitledDocument :: bool
  timeoutInMilliseconds :: nat

record js_error =
  code :: "string option"
  message :: string

datatype RequestState = Closed | Pending | Received HttpResponse | Error | Cancelled

datatype TestRunnerResult = TestRunnerResult HttpResponse "string option"

text \<open>The message \<^verbatim>\<open>runCore\<close> shows for a failed request: rewritten for three error
  codes (the texts quote the timeout setting and the error), the error's own otherwise.\<close>

datatype error_message =
    TimedOutMessage nat js_error
  | ConnectionRejectedMessage js_error
  | NetworkUnreachableMessage js_error
  | OwnMessage string

definition failure_message :: "IRestClientSettings \<Rightarrow> js_error \<Rightarrow> error_message" where
  "failure_message settings err =
     (if code err = Some ''ETIMEDOUT'' then TimedOutMessage (timeoutInMilliseconds settings) err
      else if code err = Some ''ECONNREFUSED'' then ConnectionRejectedMessage err
      else if code err = Some ''ENETUNREACH'' then NetworkUnreachableMessage err
      else OwnMessage (message err))"

text \<open>What the controller does to the outside, in the order it does it.\<close>

datatype action =
    StatusUpdate RequestState
  | ScriptExecute string
  | ScriptErrorShown js_error
  | HttpSend ref
  | CacheAdd TextDocument string HttpResponse
  | TestExecute HttpResponse "string option"
  | RenderTextDocument HttpResponse "ViewColumn option"
  | RenderWebview HttpResponse TestRunnerResult ViewColumn
  | PreviewFailed
  | HistoryAdd ref
  | RequestFailed error_message

datatype pc = AwaitScript nat | AwaitSend | AwaitHistory | Finished

record task =
  treq :: ref
  tsettings :: IRestClientSettings
  tdoc :: "TextDocument option"
  tscripts :: "string option list"
  tpc :: pc

text \<open>Modelled from the spec: \<^verbatim>\<open>RequestVariableCache\<close> (utils/requestVariableCache) is
  not among the sources; an entry is keyed by (document identity, request name) and holds
  the last response written, last write wins.\<close>

type_synonym RequestVariableCache = "TextDocument \<times> string \<rightharpoonup> HttpResponse"

definition cache_add ::
  "TextDocument \<Rightarrow> string \<Rightarrow> HttpResponse \<Rightarrow> RequestVariableCache \<Rightarrow> RequestVariableCache" where
  "cache_add document nm response c = c((document, nm) \<mapsto> response)"

record controller =
  heap :: "ref \<Rightarrow> HttpRequest"
  next_ref :: ref
  lastRequestSettingTuple :: "(ref \<times> IRestClientSettings) option"
  lastPendingRequest :: "ref option"
  cache :: RequestVariableCache
  trace :: "(nat option \<times> action) list"
  tasks :: "task list"

text \<open>How the promise of \<^verbatim>\<open>ScriptRunner.execute\<close> settles: resolved; rejected because
  the script does not compile (the constructor of the function throws); or rejected
  because the script threw an error object, which the script runner reports first. A
  script that throws a value without a stack makes the report itself throw, and then the
  promise never settles: that is the absence of the event.\<close>

datatype script_outcome = ScriptResolved | ScriptSyntaxError js_error | ScriptThrown js_error

text \<open>The events of the environment: \<^verbatim>\<open>run\<close> has parsed a request of a document;
  the commands \<^verbatim>\<open>rerun\<close> and \<^verbatim>\<open>cancel\<close>; the webview has closed its last panel; and
  the promise an activation awaits has settled (a script, the send with the editor
  active at that moment, the write of the history). The number is the activation: its
  position in the list of tasks.\<close>

datatype event =
    Run HttpRequest IRestClientSettings TextDocument
  | Rerun
  | Cancel
  | AllWebviewPanelsClosed
  | ScriptSettled nat script_outcome
  | SendSettled nat "js_error + HttpResponse" "ViewColumn option option"
  | HistorySettled nat "js_error option"

subsection \<open>Operations\<close>

definition emit :: "nat option \<Rightarrow> action \<Rightarrow> controller \<Rightarrow> controller" where
  "emit t a s = s\<lparr>trace := trace s @ [(t, a)]\<rparr>"

definition set_pc :: "nat \<Rightarrow> pc \<Rightarrow> controller \<Rightarrow> controller" where
  "set_pc t p s = s\<lparr>tasks := (tasks s)[t := (tasks s ! t)\<lparr>tpc := p\<rparr>]\<rparr>"

text \<open>JavaScript truthiness of \<^verbatim>\<open>string | undefined\<close>: undefined and the empty string
  are falsy.\<close>

fun truthy :: "string option \<Rightarrow> bool" where
  "truthy None = False"
| "truthy (Some v) = (v \<noteq> [])"

text \<open>The \<^verbatim>\<open>finally\<close> block of \<^verbatim>\<open>runCore\<close>.\<close>

definition finish :: "nat \<Rightarrow> controller \<Rightarrow> controller" where
  "finish t s =
     set_pc t Finished
       (if lastPendingRequest s = Some (treq (tasks s ! t))
        then s\<lparr>lastPendingRequest := None\<rparr> else s)"

text \<open>The \<^verbatim>\<open>catch\<close> block of \<^verbatim>\<open>runCore\<close>, then \<^verbatim>\<open>finally\<close>.\<close>

definition on_error :: "nat \<Rightarrow> js_error \<Rightarrow> controller \<Rightarrow> controller" where
  "on_error t err s =
     (let tk = tasks s ! t in
      if isCancelled (heap s (treq tk)) then finish t s
      else finish t
             (emit (Some t) (RequestFailed (failure_message (tsettings tk) err))
               (emit (Some t) (StatusUpdate Error) s)))"

text \<open>\<^verbatim>\<open>this._httpClient.send(httpRequest, settings)\<close> is called, then awaited.\<close>

definition start_send :: "nat \<Rightarrow> controller \<Rightarrow> controller" where
  "start_send t s = set_pc t AwaitSend (emit (Some t) (HttpSend (treq (tasks s ! t))) s)"

text \<open>One turn of the loop over the scripts: \<^verbatim>\<open>ScriptRunner.execute\<close> returns at once
  for a falsy script and invokes the script's function otherwise; the controller awaits
  the promise in both cases.\<close>

definition start_script :: "nat \<Rightarrow> nat \<Rightarrow> controller \<Rightarrow> controller" where
  "start_script t i s =
     set_pc t (AwaitScript i)
       (case tscripts (tasks s ! t) ! i of
          Some sc \<Rightarrow> if sc \<noteq> [] then emit (Some t) (ScriptExecute sc) s else s
        | None \<Rightarrow> s)"

text \<open>\<^verbatim>\<open>runCore\<close> from its entry to its first \<^verbatim>\<open>await\<close>.\<close>

definition runCore :: "ref \<Rightarrow> IRestClientSettings \<Rightarrow> TextDocument option \<Rightarrow> controller \<Rightarrow> controller" where
  "runCore r settings document s =
     (let t = length (tasks s);
          scs = (case scripts (heap s r) of None \<Rightarrow> [] | Some l \<Rightarrow> l);
          s1 = emit (Some t) (StatusUpdate Pending) s;
          s2 = s1\<lparr>lastPendingRequest := Some r,
                  lastRequestSettingTuple := Some (r, settings),
                  tasks := tasks s1 @
                    [\<lparr>treq = r, tsettings = settings, tdoc = document, tscripts = scs,
                      tpc = AwaitSend\<rparr>]\<rparr>
      in if scs \<noteq> [] then start_script t 0 s2 else start_send t s2)"

text \<open>\<^verbatim>\<open>run\<close>, from the point where the selected text has been parsed into a new
  \<^verbatim>\<open>HttpRequest\<close> object: the object is allocated and \<^verbatim>\<open>runCore\<close> is called with
  the document.\<close>

definition run :: "HttpRequest \<Rightarrow> IRestClientSettings \<Rightarrow> TextDocument \<Rightarrow> controller \<Rightarrow> controller" where
  "run rq settings document s =
     (let r = next_ref s in
      runCore r settings (Some document) (s\<lparr>heap := (heap s)(r := rq), next_ref := Suc r\<rparr>))"

definition rerun :: "controller \<Rightarrow> controller" where
  "rerun s =
     (case lastRequestSettingTuple s of
        None \<Rightarrow> s
      | Some (request, settings) \<Rightarrow> runCore request settings None s)"

definition cancel :: "controller \<Rightarrow> controller" where
  "cancel s =
     emit None (StatusUpdate Cancelled)
       (case lastPendingRequest s of
          None \<Rightarrow> s
        | Some r \<Rightarrow> s\<lparr>heap := (heap s)(r := request_cancel (heap s r))\<rparr>)"

text \<open>The column of the preview: \<^verbatim>\<open>undefined\<close> and \<^verbatim>\<open>NaN\<close> are \<open>None\<close>.\<close>

definition preview_column :: "IRestClientSettings \<Rightarrow> ViewColumn option \<Rightarrow> ViewColumn option" where
  "preview_column settings activeColumn =
     (if previewColumn settings = - 1 then activeColumn
      else map_option (\<lambda>c. c + 1) activeColumn)"

text \<open>The inner \<^verbatim>\<open>try\<close> of \<^verbatim>\<open>runCore\<close>: without an active editor the read of its column
  throws, which the inner \<^verbatim>\<open>catch\<close> reports.\<close>

definition preview ::
  "nat \<Rightarrow> HttpResponse \<Rightarrow> TestRunnerResult \<Rightarrow> ViewColumn option option \<Rightarrow> controller \<Rightarrow> controller" where
  "preview t response testRunnerResult editor s =
     (case editor of
        None \<Rightarrow> emit (Some t) PreviewFailed s
      | Some activeColumn \<Rightarrow>
          (let col = preview_column (tsettings (tasks s ! t)) activeColumn in
           if previewResponseInUntitledDocument (tsettings (tasks s ! t))
           then emit (Some t) (RenderTextDocument response col) s
           else (case col of
                   None \<Rightarrow> s
                 | Some c \<Rightarrow> if c \<noteq> 0
                     then emit (Some t) (RenderWebview response testRunnerResult c) s else s)))"

text \<open>\<^verbatim>\<open>runCore\<close> from the response of \<^verbatim>\<open>send\<close> to the \<^verbatim>\<open>await\<close> of the history. The test
  runner and the two views are not among the sources: the tests are run on the response
  and their result is handed to the webview as it is.\<close>

definition on_response ::
  "nat \<Rightarrow> HttpResponse \<Rightarrow> ViewColumn option option \<Rightarrow> controller \<Rightarrow> controller" where
  "on_response t response editor s =
     (let tk = tasks s ! t; rq = heap s (treq tk) in
      if isCancelled rq then finish t s
      else
        (let s1 = emit (Some t) (StatusUpdate (Received response)) s;
             s2 = (case (name rq, tdoc tk) of
                     (Some nm, Some document) \<Rightarrow>
                        if nm \<noteq> []
                        then emit (Some t) (CacheAdd document nm response)
                               (s1\<lparr>cache := cache_add document nm response (cache s1)\<rparr>)
                        else s1
                   | _ \<Rightarrow> s1);
             s3 = emit (Some t) (TestExecute response (tests rq)) s2;
             s4 = preview t response (TestRunnerResult response (tests rq)) editor s3;
             s5 = emit (Some t) (HistoryAdd (treq tk)) s4
         in set_pc t AwaitHistory s5))"

text \<open>The continuation of a settled script: a falsy script never ran, so its promise
  resolved; a script that throws at run time is reported by the script runner before the
  promise rejects; a script that does not compile rejects without that report.\<close>

definition on_script :: "nat \<Rightarrow> nat \<Rightarrow> script_outcome \<Rightarrow> controller \<Rightarrow> controller" where
  "on_script t i outcome s =
     (let scs = tscripts (tasks s ! t);
          outcome' = (if truthy (scs ! i) then outcome else ScriptResolved)
      in case outcome' of
           ScriptResolved \<Rightarrow>
             if Suc i < length scs then start_script t (Suc i) s else start_send t s
         | ScriptSyntaxError err \<Rightarrow> on_error t err s
         | ScriptThrown err \<Rightarrow> on_error t err (emit (Some t) (ScriptErrorShown err) s))"

fun step :: "controller \<Rightarrow> event \<Rightarrow> controller" where
  "step s (Run rq settings document) = run rq settings document s"
| "step s Rerun = rerun s"
| "step s Cancel = cancel s"
| "step s AllWebviewPanelsClosed = emit None (StatusUpdate Closed) s"
| "step s (ScriptSettled t outcome) =
     (if t < length (tasks s)
      then (case tpc (tasks s ! t) of AwaitScript i \<Rightarrow> on_script t i outcome s | _ \<Rightarrow> s)
      else s)"
| "step s (SendSettled t result editor) =
     (if t < length (tasks s) \<and> tpc (tasks s ! t) = AwaitSend
      then (case result of
              Inl err \<Rightarrow> on_error t err s
            | Inr response \<Rightarrow> on_response t response editor s)
      else s)"
| "step s (HistorySettled t result) =
     (if t < length (tasks s) \<and> tpc (tasks s ! t) = AwaitHistory
      then (case result of None \<Rightarrow> finish t s | Some err \<Rightarrow> on_error t err s)
      else s)"

definition exec :: "controller \<Rightarrow> event list \<Rightarrow> controller" where
  "exec s evs = foldl step s evs"

definition no_request :: HttpRequest where
  "no_request = \<lparr>name = None, scripts = None, tests = None, isCancelled = False\<rparr>"

definition init :: controller where
  "init = \<lparr>heap = (\<lambda>_. no_request), next_ref = 0, lastRequestSettingTuple = None,
           lastPendingRequest = None, cache = Map.empty, trace = [], tasks = []\<rparr>"

subsection \<open>The pending request\<close>

text \<open>The field, when set, holds the request of the activation started last, and that
  activation has not finished.\<close>

definition pending_inv :: "controller \<Rightarrow> bool" where
  "pending_inv s =
     (lastPendingRequest s = None \<or>
      (tasks s \<noteq> [] \<and> lastPendingRequest s = Some (treq (last (tasks s))) \<and>
       tpc (last (tasks s)) \<noteq> Finished))"

subsection \<open>Actions of one activation; writes to the cache\<close>

text \<open>The actions of one activation, in order; its writes to the cache. Before the
  response an activation has written nothing, and it never writes twice.\<close>

definition task_actions :: "nat \<Rightarrow> (nat option \<times> action) list \<Rightarrow> action list" where
  "task_actions t tr = map snd (filter (\<lambda>x. fst x = Some t) tr)"

fun is_CacheAdd :: "action \<Rightarrow> bool" where
  "is_CacheAdd (CacheAdd _ _ _) = True"
| "is_CacheAdd _ = False"

definition cache_writes :: "nat \<Rightarrow> controller \<Rightarrow> action list" where
  "cache_writes t s = filter is_CacheAdd (task_actions t (trace s))"

fun before_response :: "pc \<Rightarrow> bool" where
  "before_response (AwaitScript _) = True"
| "before_response AwaitSend = True"
| "before_response _ = False"

definition cache_write_inv :: "nat \<Rightarrow> controller \<Rightarrow> bool" where
  "cache_write_inv t s =
     (length (cache_writes t s) \<le> 1 \<and>
      ((t < length (tasks s) \<longrightarrow> before_response (tpc (tasks s ! t))) \<longrightarrow> cache_writes t s = []))"

subsection \<open>Scripts and the send\<close>

text \<open>The script executions and the send of one activation; the executions of a list of
  scripts (the falsy ones are skipped); the status updates of the controller.\<close>

fun is_script_or_send :: "action \<Rightarrow> bool" where
  "is_script_or_send (ScriptExecute _) = True"
| "is_script_or_send (HttpSend _) = True"
| "is_script_or_send _ = False"

definition script_sends :: "nat \<Rightarrow> controller \<Rightarrow> action list" where
  "script_sends t s = filter is_script_or_send (task_actions t (trace s))"

definition executed :: "string option list \<Rightarrow> action list" where
  "executed scs = map (\<lambda>sc. ScriptExecute (the sc)) (filter truthy scs)"

fun is_StatusUpdate :: "action \<Rightarrow> bool" where
  "is_StatusUpdate (StatusUpdate _) = True"
| "is_StatusUpdate _ = False"

definition status_updates :: "controller \<Rightarrow> action list" where
  "status_updates s = filter is_StatusUpdate (map snd (trace s))"

text \<open>What an activation has executed and sent, by its program counter: while it awaits
  script \<open>i\<close>, the scripts up to \<open>i\<close>; after that all scripts and the send; when finished,
  a prefix of these.\<close>

fun script_ok :: "pc \<Rightarrow> task \<Rightarrow> action list \<Rightarrow> bool" where
  "script_ok (AwaitScript i) tk acts =
     (i < length (tscripts tk) \<and> acts = executed (take (Suc i) (tscripts tk)))"
| "script_ok Finished tk acts = prefix acts (executed (tscripts tk) @ [HttpSend (treq tk)])"
| "script_ok _ tk acts = (acts = executed (tscripts tk) @ [HttpSend (treq tk)])"

definition script_inv :: "nat \<Rightarrow> controller \<Rightarrow> bool" where
  "script_inv t s =
     (if t < length (tasks s)
      then script_ok (tpc (tasks s ! t)) (tasks s ! t) (script_sends t s)
      else script_sends t s = [])"

subsection \<open>Scenarios\<close>

definition example_settings :: IRestClientSettings where
  "example_settings =
     \<lparr>previewColumn = - 2, previewResponseInUntitledDocument = False,
      timeoutInMilliseconds = 0\<rparr>"

definition login_request :: HttpRequest where
  "login_request = \<lparr>name = Some ''login'', scripts = None, tests = None, isCancelled = False\<rparr>"

text \<open>A request with one script, which waits before it throws.\<close>

definition waiting_script :: string where
  "waiting_script = ''await new Promise(r => setTimeout(r, 5000)); throw new Error(1)''"

definition scripted_request :: HttpRequest where
  "scripted_request =
     \<lparr>name = Some ''login'', scripts = Some [Some waiting_script], tests = None,
      isCancelled = False\<rparr>"

definition script_failure :: js_error where
  "script_failure = \<lparr>code = None, message = ''1''\<rparr>"

text \<open>A named request is run and answered, then rerun and answered again.\<close>

definition rerun_scenario :: controller where
  "rerun_scenario =
     exec init
       [Run login_request example_settings 7,
        SendSettled 0 (Inr (HttpResponse 1)) (Some (Some 1)),
        Rerun,
        SendSettled 1 (Inr (HttpResponse 2)) (Some (Some 1))]"

text \<open>A request with one script is run, cancelled while the script runs, and the script
  then throws.\<close>

definition cancelled_script_scenario :: controller where
  "cancelled_script_scenario =
     exec init
       [Run scripted_request example_settings 7,
        Cancel,
        ScriptSettled 0 (ScriptThrown script_failure)]"

definition awaiting_send :: controller where
  "awaiting_send = exec init [Run login_request example_settings 7]"

definition awaiting_script :: controller where
  "awaiting_script = exec init [Run scripted_request example_settings 7]"

subsection \<open>Effect of each operation on each field\<close>

lemma emit_fields [simp]:
  "heap (emit t a s) = heap s" "next_ref (emit t a s) = next_ref s"
  "lastRequestSettingTuple (emit t a s) = lastRequestSettingTuple s"
  "lastPendingRequest (emit t a s) = lastPendingRequest s"
  "cache (emit t a s) = cache s" "tasks (emit t a s) = tasks s"
  "trace (emit t a s) = trace s @ [(t, a)]"
  by (simp_all add: emit_def)

lemma set_pc_fields [simp]:
  "heap (set_pc t p s) = heap s" "next_ref (set_pc t p s) = next_ref s"
  "lastRequestSettingTuple (set_pc t p s) = lastRequestSettingTuple s"
  "lastPendingRequest (set_pc t p s) = lastPendingRequest s"
  "cache (set_pc t p s) = cache s" "trace (set_pc t p s) = trace s"
  "tasks (set_pc t p s) = (tasks s)[t := (tasks s ! t)\<lparr>tpc := p\<rparr>]"
  by (simp_all add: set_pc_def)

lemma finish_fields [simp]:
  "heap (finish t s) = heap s" "next_ref (finish t s) = next_ref s"
  "lastRequestSettingTuple (finish t s) = lastRequestSettingTuple s"
  "cache (finish t s) = cache s" "trace (finish t s) = trace s"
  "tasks (finish t s) = (tasks s)[t := (tasks s ! t)\<lparr>tpc := Finished\<rparr>]"
  "lastPendingRequest (finish t s) =
     (if lastPendingRequest s = Some (treq (tasks s ! t)) then None else lastPendingRequest s)"
  by (simp_all add: finish_def)

lemma on_error_fields [simp]:
  "heap (on_error t err s) = heap s" "next_ref (on_error t err s) = next_ref s"
  "lastRequestSettingTuple (on_error t err s) = lastRequestSettingTuple s"
  "cache (on_error t err s) = cache s"
  "tasks (on_error t err s) = (tasks s)[t := (tasks s ! t)\<lparr>tpc := Finished\<rparr>]"
  "lastPendingRequest (on_error t err s) =
     (if lastPendingRequest s = Some (treq (tasks s ! t)) then None else lastPendingRequest s)"
  by (simp_all add: on_error_def Let_def)

lemma on_error_trace:
  "trace (on_error t err s) =
     trace s @ (if isCancelled (heap s (treq (tasks s ! t))) then []
                else [(Some t, StatusUpdate Error),
                      (Some t, RequestFailed (failure_message (tsettings (tasks s ! t)) err))])"
  by (simp add: on_error_def Let_def)

lemma start_send_fields [simp]:
  "heap (start_send t s) = heap s" "next_ref (start_send t s) = next_ref s"
  "lastRequestSettingTuple (start_send t s) = lastRequestSettingTuple s"
  "lastPendingRequest (start_send t s) = lastPendingRequest s"
  "cache (start_send t s) = cache s"
  "tasks (start_send t s) = (tasks s)[t := (tasks s ! t)\<lparr>tpc := AwaitSend\<rparr>]"
  "trace (start_send t s) = trace s @ [(Some t, HttpSend (treq (tasks s ! t)))]"
  by (simp_all add: start_send_def)

lemma start_script_fields [simp]:
  "heap (start_script t i s) = heap s" "next_ref (start_script t i s) = next_ref s"
  "lastRequestSettingTuple (start_script t i s) = lastRequestSettingTuple s"
  "lastPendingRequest (start_script t i s) = lastPendingRequest s"
  "cache (start_script t i s) = cache s"
  "tasks (start_script t i s) = (tasks s)[t := (tasks s ! t)\<lparr>tpc := AwaitScript i\<rparr>]"
  by (simp_all add: start_script_def split: option.splits)

lemma start_script_trace:
  "trace (start_script t i s) =
     trace s @ (if truthy (tscripts (tasks s ! t) ! i)
                then [(Some t, ScriptExecute (the (tscripts (tasks s ! t) ! i)))] else [])"
  by (simp add: start_script_def split: option.splits)

lemma preview_fields [simp]:
  "heap (preview t r q e s) = heap s" "next_ref (preview t r q e s) = next_ref s"
  "lastRequestSettingTuple (preview t r q e s) = lastRequestSettingTuple s"
  "lastPendingRequest (preview t r q e s) = lastPendingRequest s"
  "cache (preview t r q e s) = cache s"
  "tasks (preview t r q e s) = tasks s"
  by (simp_all add: preview_def Let_def split: option.splits)

lemma on_response_fields [simp]:
  "heap (on_response t r e s) = heap s" "next_ref (on_response t r e s) = next_ref s"
  "lastRequestSettingTuple (on_response t r e s) = lastRequestSettingTuple s"
  "tasks (on_response t r e s) =
     (tasks s)[t := (tasks s ! t)\<lparr>tpc :=
        if isCancelled (heap s (treq (tasks s ! t))) then Finished else AwaitHistory\<rparr>]"
  "lastPendingRequest (on_response t r e s) =
     (if isCancelled (heap s (treq (tasks s ! t))) \<and>
         lastPendingRequest s = Some (treq (tasks s ! t))
      then None else lastPendingRequest s)"
  by (simp_all add: on_response_def Let_def split: option.splits)

lemma on_response_cache:
  "cache (on_response t r e s) =
     (if isCancelled (heap s (treq (tasks s ! t))) then cache s
      else case (name (heap s (treq (tasks s ! t))), tdoc (tasks s ! t)) of
             (Some nm, Some document) \<Rightarrow>
               if nm \<noteq> [] then (cache s)((document, nm) \<mapsto> r) else cache s
           | _ \<Rightarrow> cache s)"
  by (simp add: on_response_def Let_def cache_add_def split: option.splits)

subsection \<open>The pending request is the request started last\<close>

lemma runCore_tasks:
  "\<exists>p. p \<noteq> Finished \<and> tasks (runCore r st d s) =
     tasks s @ [\<lparr>treq = r, tsettings = st, tdoc = d,
       tscripts = (case scripts (heap s r) of None \<Rightarrow> [] | Some l \<Rightarrow> l), tpc = p\<rparr>]"
  by (simp add: runCore_def Let_def start_script_def start_send_def set_pc_def emit_def
      split: option.splits)

lemma runCore_fields [simp]:
  "heap (runCore r st d s) = heap s" "next_ref (runCore r st d s) = next_ref s"
  "lastRequestSettingTuple (runCore r st d s) = Some (r, st)"
  "lastPendingRequest (runCore r st d s) = Some r"
  "cache (runCore r st d s) = cache s"
  by (simp_all add: runCore_def Let_def)

lemma pending_inv_runCore: "pending_inv (runCore r st d s)"
  using runCore_tasks [of r st d s] by (auto simp: pending_inv_def)

lemma pending_inv_finish:
  "pending_inv s \<Longrightarrow> t < length (tasks s) \<Longrightarrow> pending_inv (finish t s)"
  by (auto simp: pending_inv_def last_conv_nth nth_list_update split: option.splits if_splits)

lemma pending_inv_on_error:
  "pending_inv s \<Longrightarrow> t < length (tasks s) \<Longrightarrow> pending_inv (on_error t err s)"
  by (auto simp: pending_inv_def last_conv_nth nth_list_update split: option.splits if_splits)

lemma pending_inv_set_pc:
  "pending_inv s \<Longrightarrow> t < length (tasks s) \<Longrightarrow> p \<noteq> Finished \<Longrightarrow> pending_inv (set_pc t p s)"
  by (auto simp: pending_inv_def last_conv_nth nth_list_update split: option.splits if_splits)

lemma pending_inv_emit [simp]: "pending_inv (emit t a s) = pending_inv s"
  by (simp add: pending_inv_def)

lemma pending_inv_cache [simp]: "pending_inv (s\<lparr>cache := c\<rparr>) = pending_inv s"
  by (simp add: pending_inv_def)

lemma pending_inv_heap [simp]: "pending_inv (s\<lparr>heap := c\<rparr>) = pending_inv s"
  by (simp add: pending_inv_def)

lemma pending_inv_next_ref [simp]: "pending_inv (s\<lparr>next_ref := c\<rparr>) = pending_inv s"
  by (simp add: pending_inv_def)

lemma pending_inv_preview [simp]: "pending_inv (preview t r q e s) = pending_inv s"
  by (simp add: pending_inv_def)

lemma pending_inv_step: "pending_inv s \<Longrightarrow> pending_inv (step s e)"
proof (cases e)
  case (Run rq st d)
  then show ?thesis by (simp add: run_def Let_def pending_inv_runCore)
next
  case Rerun
  assume "pending_inv s"
  with Rerun show ?thesis by (simp add: rerun_def pending_inv_runCore split: option.splits)
next
  case Cancel
  assume "pending_inv s"
  with Cancel show ?thesis by (simp add: cancel_def split: option.splits)
next
  case AllWebviewPanelsClosed
  assume "pending_inv s"
  with AllWebviewPanelsClosed show ?thesis by simp
next
  case (ScriptSettled t outcome)
  assume "pending_inv s"
  with ScriptSettled show ?thesis
    by (auto simp: on_script_def Let_def start_script_def start_send_def
        pending_inv_on_error pending_inv_set_pc
        split: pc.splits script_outcome.splits option.splits)
next
  case (SendSettled t result editor)
  assume "pending_inv s"
  with SendSettled show ?thesis
    by (auto simp: on_response_def Let_def pending_inv_on_error pending_inv_set_pc
        pending_inv_finish simp del: on_response_fields split: sum.splits option.splits)
next
  case (HistorySettled t result)
  assume "pending_inv s"
  with HistorySettled show ?thesis
    by (auto simp: pending_inv_on_error pending_inv_finish split: option.splits)
qed

lemma pending_inv_exec: "pending_inv s \<Longrightarrow> pending_inv (exec s evs)"
  unfolding exec_def by (induction evs arbitrary: s) (simp_all add: pending_inv_step)

lemma pending_inv_init: "pending_inv init"
  by (simp add: pending_inv_def init_def)

lemma task_actions_simps [simp]:
  "task_actions t [] = []"
  "task_actions t (tr @ tr') = task_actions t tr @ task_actions t tr'"
  "task_actions t ((tag, a) # tr) = (if tag = Some t then [a] else []) @ task_actions t tr"
  by (simp_all add: task_actions_def)

lemma cache_writes_preview [simp]:
  "cache_writes u (preview t r q e s) = cache_writes u s"
  by (simp add: preview_def Let_def cache_writes_def split: option.splits)

lemma cache_writes_emit:
  "cache_writes u (emit tag a s) =
     cache_writes u s @ (if tag = Some u \<and> is_CacheAdd a then [a] else [])"
  by (simp add: cache_writes_def)

lemma cache_writes_upd [simp]:
  "cache_writes u (s\<lparr>tasks := ts\<rparr>) = cache_writes u s"
  "cache_writes u (s\<lparr>cache := c\<rparr>) = cache_writes u s"
  "cache_writes u (s\<lparr>heap := h\<rparr>) = cache_writes u s"
  "cache_writes u (s\<lparr>next_ref := n\<rparr>) = cache_writes u s"
  "cache_writes u (s\<lparr>lastPendingRequest := lp\<rparr>) = cache_writes u s"
  "cache_writes u (s\<lparr>lastRequestSettingTuple := lt\<rparr>) = cache_writes u s"
  by (simp_all add: cache_writes_def)

lemma cache_writes_ops [simp]:
  "cache_writes u (set_pc t p s) = cache_writes u s"
  "cache_writes u (finish t s) = cache_writes u s"
  "cache_writes u (on_error t err s) = cache_writes u s"
  "cache_writes u (start_send t s) = cache_writes u s"
  "cache_writes u (start_script t i s) = cache_writes u s"
  by (simp_all add: cache_writes_def on_error_trace start_script_trace)

lemma cache_writes_runCore [simp]:
  "cache_writes u (runCore r st d s) = cache_writes u s"
  by (simp add: runCore_def Let_def cache_writes_emit)

lemma cache_writes_on_response:
  "cache_writes u (on_response t response editor s) =
     cache_writes u s @
       (if u = t \<and> \<not> isCancelled (heap s (treq (tasks s ! t))) \<and>
           truthy (name (heap s (treq (tasks s ! t)))) \<and> tdoc (tasks s ! t) \<noteq> None
        then [CacheAdd (the (tdoc (tasks s ! t))) (the (name (heap s (treq (tasks s ! t))))) response]
        else [])"
  by (auto simp: on_response_def Let_def cache_writes_emit split: option.splits)

lemma cache_write_inv_step: 
  assumes "cache_write_inv u s" shows "cache_write_inv u (step s e)"
proof (cases e)
  case (Run rq st d)
  obtain p where "p \<noteq> Finished" and
    "tasks (runCore (next_ref s) st (Some d) (s\<lparr>heap := (heap s)(next_ref s := rq), next_ref := Suc (next_ref s)\<rparr>)) = tasks s @ [\<lparr>treq = next_ref s, tsettings = st, tdoc = Some d,
       tscripts = (case scripts rq of None \<Rightarrow> [] | Some l \<Rightarrow> l), tpc = p\<rparr>]"
    using runCore_tasks [of "next_ref s" st "Some d" "s\<lparr>heap := (heap s)(next_ref s := rq), next_ref := Suc (next_ref s)\<rparr>"] by auto
  with assms Run show ?thesis 
    by (auto simp: cache_write_inv_def run_def Let_def nth_append)
next
  case Rerun
  show ?thesis
  proof (cases "lastRequestSettingTuple s")
    case None
    with assms Rerun show ?thesis by (simp add: rerun_def)
  next
    case (Some a)
    obtain r st where a: "a = (r, st)" by (cases a)
    obtain p where "tasks (runCore r st None s) = tasks s @ [\<lparr>treq = r, tsettings = st, tdoc = None,
       tscripts = (case scripts (heap s r) of None \<Rightarrow> [] | Some l \<Rightarrow> l), tpc = p\<rparr>]"
      using runCore_tasks [of r st None s] by auto
    with assms Rerun Some a show ?thesis
      by (auto simp: cache_write_inv_def rerun_def nth_append)
  qed
next
  case Cancel
  with assms show ?thesis by (simp add: cache_write_inv_def cancel_def cache_writes_emit split: option.splits)
next
  case AllWebviewPanelsClosed
  with assms show ?thesis by (simp add: cache_write_inv_def cache_writes_emit)
next
  case (ScriptSettled t outcome)
  with assms show ?thesis
    by (auto simp: cache_write_inv_def on_script_def Let_def cache_writes_emit nth_list_update
        split: pc.splits script_outcome.splits)
next
  case (SendSettled t result editor)
  with assms show ?thesis
    by (auto simp: cache_write_inv_def cache_writes_on_response nth_list_update
        split: sum.splits)
next
  case (HistorySettled t result)
  with assms show ?thesis
    by (auto simp: cache_write_inv_def nth_list_update split: option.splits)
qed

lemma cache_write_inv_exec: "cache_write_inv u s \<Longrightarrow> cache_write_inv u (exec s evs)"
  unfolding exec_def by (induction evs arbitrary: s) (simp_all add: cache_write_inv_step)

lemma cache_write_inv_init: "cache_write_inv u init"
  by (simp add: cache_write_inv_def init_def cache_writes_def)

lemma preview_trace_other:
  "u \<noteq> t \<Longrightarrow> task_actions u (trace (preview t r q e s)) = task_actions u (trace s)"
  by (simp add: preview_def Let_def split: option.splits)

lemma on_response_trace_other:
  "u \<noteq> t \<Longrightarrow> task_actions u (trace (on_response t r e s)) = task_actions u (trace s)"
  by (simp add: on_response_def Let_def preview_trace_other split: option.splits)

lemma on_script_trace_other:
  "u \<noteq> t \<Longrightarrow> task_actions u (trace (on_script t i outcome s)) = task_actions u (trace s)"
  by (simp add: on_script_def Let_def on_error_trace start_script_trace
      split: script_outcome.splits)

lemma runCore_trace_other:
  "u \<noteq> length (tasks s) \<Longrightarrow>
   task_actions u (trace (runCore r st d s)) = task_actions u (trace s)"
  by (simp add: runCore_def Let_def start_script_trace)

lemma on_script_tasks_other [simp]:
  "length (tasks (on_script t i outcome s)) = length (tasks s)"
  "u \<noteq> t \<Longrightarrow> tasks (on_script t i outcome s) ! u = tasks s ! u"
  by (simp_all add: on_script_def Let_def split: script_outcome.splits)

text \<open>A finished activation never acts again.\<close>

lemma finished_step:
  assumes "t < length (tasks s)" "tpc (tasks s ! t) = Finished"
  shows "t < length (tasks (step s e)) \<and> tpc (tasks (step s e) ! t) = Finished \<and>
         task_actions t (trace (step s e)) = task_actions t (trace s)"
proof (cases e)
  case (Run rq st d)
  let ?s = "s\<lparr>heap := (heap s)(next_ref s := rq), next_ref := Suc (next_ref s)\<rparr>"
  from runCore_tasks [of "next_ref s" st "Some d" ?s] runCore_trace_other [of t ?s "next_ref s" st "Some d"]
  show ?thesis using assms Run by (auto simp: run_def Let_def nth_append)
next
  case Rerun
  show ?thesis
  proof (cases "lastRequestSettingTuple s")
    case None
    with assms Rerun show ?thesis by (simp add: rerun_def)
  next
    case (Some a)
    obtain r st where a: "a = (r, st)" by (cases a)
    from runCore_tasks [of r st None s] runCore_trace_other [of t s r st None]
    show ?thesis using assms Rerun Some a by (auto simp: rerun_def nth_append)
  qed
next
  case Cancel
  with assms show ?thesis by (simp add: cancel_def split: option.splits)
next
  case AllWebviewPanelsClosed
  with assms show ?thesis by simp
next
  case (ScriptSettled u outcome)
  show ?thesis
  proof (cases "u = t")
    case True
    with assms ScriptSettled show ?thesis by simp
  next
    case False
    with assms ScriptSettled show ?thesis
      by (auto simp: on_script_trace_other split: pc.splits)
  qed
next
  case (SendSettled u result editor)
  show ?thesis
  proof (cases "u = t")
    case True
    with assms SendSettled show ?thesis by simp
  next
    case False
    with assms SendSettled show ?thesis
      by (auto simp: on_error_trace on_response_trace_other split: sum.splits)
  qed
next
  case (HistorySettled u result)
  show ?thesis
  proof (cases "u = t")
    case True
    with assms HistorySettled show ?thesis by simp
  next
    case False
    with assms HistorySettled show ?thesis
      by (auto simp: on_error_trace split: option.splits)
  qed
qed

lemma finished_exec:
  "t < length (tasks s) \<Longrightarrow> tpc (tasks s ! t) = Finished \<Longrightarrow>
   t < length (tasks (exec s evs)) \<and> tpc (tasks (exec s evs) ! t) = Finished \<and>
   task_actions t (trace (exec s evs)) = task_actions t (trace s)"
  unfolding exec_def
proof (induction evs arbitrary: s)
  case Nil
  then show ?case by simp
next
  case (Cons e evs)
  from finished_step [OF Cons.prems, of e] Cons.IH [of "step s e"]
  show ?case by simp
qed

lemma script_ok_tpc [simp]: "script_ok p (tk\<lparr>tpc := q\<rparr>) acts = script_ok p tk acts"
  by (cases p) simp_all

lemma runCore_tasks_eq:
  "tasks (runCore r st d s) =
     tasks s @ [\<lparr>treq = r, tsettings = st, tdoc = d,
       tscripts = (case scripts (heap s r) of None \<Rightarrow> [] | Some l \<Rightarrow> l),
       tpc = (if (case scripts (heap s r) of None \<Rightarrow> [] | Some l \<Rightarrow> l) \<noteq> []
              then AwaitScript 0 else AwaitSend)\<rparr>]"
  by (simp add: runCore_def Let_def)

lemma executed_take_Suc:
  "i < length scs \<Longrightarrow>
   executed (take (Suc i) scs) =
     executed (take i scs) @ (if truthy (scs ! i) then [ScriptExecute (the (scs ! i))] else [])"
  by (simp add: executed_def take_Suc_conv_app_nth)

lemma executed_prefix: "prefix (executed (take i scs)) (executed scs @ rest)"
proof -
  have "prefix (take i scs) scs" by (simp add: take_is_prefix)
  then have "prefix (executed (take i scs)) (executed scs)"
    unfolding executed_def by (intro map_mono_prefix filter_mono_prefix)
  then show ?thesis by (simp add: prefix_prefix)
qed

lemma script_sends_upd [simp]:
  "script_sends u (s\<lparr>tasks := ts\<rparr>) = script_sends u s"
  "script_sends u (s\<lparr>cache := c\<rparr>) = script_sends u s"
  "script_sends u (s\<lparr>heap := h\<rparr>) = script_sends u s"
  "script_sends u (s\<lparr>next_ref := n\<rparr>) = script_sends u s"
  "script_sends u (s\<lparr>lastPendingRequest := lp\<rparr>) = script_sends u s"
  "script_sends u (s\<lparr>lastRequestSettingTuple := lt\<rparr>) = script_sends u s"
  by (simp_all add: script_sends_def)

lemma script_sends_emit:
  "script_sends u (emit tag a s) =
     script_sends u s @ (if tag = Some u \<and> is_script_or_send a then [a] else [])"
  by (simp add: script_sends_def)

lemma script_sends_ops [simp]:
  "script_sends u (set_pc t p s) = script_sends u s"
  "script_sends u (finish t s) = script_sends u s"
  "script_sends u (on_error t err s) = script_sends u s"
  "script_sends u (preview t r q e s) = script_sends u s"
  by (simp_all add: script_sends_def on_error_trace preview_def Let_def split: option.splits)

lemma script_sends_on_response [simp]:
  "script_sends u (on_response t r e s) = script_sends u s"
  by (simp add: on_response_def Let_def script_sends_emit split: option.splits)

lemma script_sends_start_send:
  "script_sends u (start_send t s) =
     script_sends u s @ (if u = t then [HttpSend (treq (tasks s ! t))] else [])"
  by (simp add: script_sends_def)

lemma script_sends_start_script:
  "script_sends u (start_script t i s) =
     script_sends u s @
       (if u = t \<and> truthy (tscripts (tasks s ! t) ! i)
        then [ScriptExecute (the (tscripts (tasks s ! t) ! i))] else [])"
  by (simp add: script_sends_def start_script_trace)

lemma script_sends_runCore:
  "script_sends u (runCore r st d s) =
     script_sends u s @
       (if u = length (tasks s)
        then (case scripts (heap s r) of
                None \<Rightarrow> [HttpSend r]
              | Some [] \<Rightarrow> [HttpSend r]
              | Some (sc # scs) \<Rightarrow> if truthy sc then [ScriptExecute (the sc)] else [])
        else [])"
  by (simp add: runCore_def Let_def script_sends_start_send script_sends_start_script
      script_sends_emit split: option.splits list.splits)

lemma script_inv_runCore:
  assumes "script_inv u s"
  shows "script_inv u (runCore r st d s)"
proof (cases "u = length (tasks s)")
  case True
  with assms have "script_sends u s = []" by (simp add: script_inv_def)
  with True show ?thesis
    by (simp add: script_inv_def runCore_tasks_eq script_sends_runCore executed_def
        split: option.splits list.splits)
next
  case False
  with assms show ?thesis
    by (simp add: script_inv_def runCore_tasks_eq script_sends_runCore nth_append
        split: if_splits)
qed

lemma script_ok_Finished:
  "script_ok p tk acts \<Longrightarrow> script_ok Finished tk acts"
  by (cases p) (simp_all add: executed_prefix del: prefix_snoc)

lemma script_ok_AwaitHistory:
  "script_ok AwaitSend tk acts \<Longrightarrow> script_ok AwaitHistory tk acts"
  by simp

lemma script_inv_finish_like:
  assumes "script_inv u s"
    and "script_sends u s' = script_sends u s"
    and "tasks s' = (tasks s)[t := (tasks s ! t)\<lparr>tpc := Finished\<rparr>]"
  shows "script_inv u s'"
  using assms
  by (cases "u = t") (auto simp: script_inv_def script_ok_Finished simp del: script_ok.simps)

lemma script_inv_on_script:
  assumes "script_inv u s" "t < length (tasks s)" "tpc (tasks s ! t) = AwaitScript i"
  shows "script_inv u (on_script t i outcome s)"
proof -
  let ?scs = "tscripts (tasks s ! t)"
  consider (more) "tasks (on_script t i outcome s) = tasks (start_script t (Suc i) s)"
      "script_sends u (on_script t i outcome s) = script_sends u (start_script t (Suc i) s)"
      "Suc i < length ?scs"
    | (send) "tasks (on_script t i outcome s) = tasks (start_send t s)"
      "script_sends u (on_script t i outcome s) = script_sends u (start_send t s)"
      "\<not> Suc i < length ?scs"
    | (err) "tasks (on_script t i outcome s) = (tasks s)[t := (tasks s ! t)\<lparr>tpc := Finished\<rparr>]"
      "script_sends u (on_script t i outcome s) = script_sends u s"
    by (cases outcome; cases "truthy (?scs ! i)"; cases "Suc i < length ?scs")
       (simp_all add: on_script_def Let_def script_sends_emit)
  then show ?thesis
  proof cases
    case more
    with assms show ?thesis
      by (cases "u = t")
         (auto simp: script_inv_def script_sends_start_script executed_take_Suc [of "Suc i"])
  next
    case send
    show ?thesis
    proof (cases "u = t")
      case True
      with assms have "i < length ?scs" by (simp add: script_inv_def)
      with send(3) have "take (Suc i) ?scs = ?scs" by simp
      with send assms True show ?thesis
        by (simp add: script_inv_def script_sends_start_send)
    next
      case False
      with send assms show ?thesis
        by (auto simp: script_inv_def script_sends_start_send)
    qed
  next
    case err
    from assms(1) err(2) err(1) show ?thesis by (rule script_inv_finish_like)
  qed
qed

lemma script_inv_step:
  assumes "script_inv u s" shows "script_inv u (step s e)"
proof (cases e)
  case (Run rq st d)
  let ?s = "s\<lparr>heap := (heap s)(next_ref s := rq), next_ref := Suc (next_ref s)\<rparr>"
  from assms have "script_inv u ?s" by (simp add: script_inv_def)
  then have "script_inv u (runCore (next_ref s) st (Some d) ?s)" by (rule script_inv_runCore)
  with Run show ?thesis by (simp add: run_def Let_def)
next
  case Rerun
  with assms show ?thesis
    by (auto simp: rerun_def script_inv_runCore split: option.splits)
next
  case Cancel
  with assms show ?thesis
    by (simp add: cancel_def script_inv_def script_sends_emit split: option.splits)
next
  case AllWebviewPanelsClosed
  with assms show ?thesis by (simp add: script_inv_def script_sends_emit)
next
  case (ScriptSettled t outcome)
  with assms show ?thesis by (auto simp: script_inv_on_script split: pc.splits)
next
  case (SendSettled t result editor)
  with assms show ?thesis
    by (auto simp: script_inv_def nth_list_update script_ok_Finished script_ok_AwaitHistory
        simp del: script_ok.simps split: sum.splits)
next
  case (HistorySettled t result)
  with assms show ?thesis
    by (auto simp: script_inv_def nth_list_update script_ok_Finished simp del: script_ok.simps
        split: option.splits)
qed

lemma script_inv_exec: "script_inv u s \<Longrightarrow> script_inv u (exec s evs)"
  unfolding exec_def by (induction evs arbitrary: s) (simp_all add: script_inv_step)

lemma script_inv_init: "script_inv u init"
  by (simp add: script_inv_def init_def script_sends_def)

lemma status_updates_emit:
  "status_updates (emit tag a s) = status_updates s @ (if is_StatusUpdate a then [a] else [])"
  by (simp add: status_updates_def)

lemma status_updates_finish [simp]: "status_updates (finish t s) = status_updates s"
  by (simp add: status_updates_def)

lemma status_updates_on_error:
  "status_updates (on_error t err s) =
     status_updates s @
       (if isCancelled (heap s (treq (tasks s ! t))) then [] else [StatusUpdate Error])"
  by (simp add: on_error_def Let_def status_updates_emit)

lemma failed_script_on_script:
  assumes "truthy (tscripts (tasks s ! t) ! i)" "outcome \<noteq> ScriptResolved"
  shows "\<exists>err s'. on_script t i outcome s = on_error t err s' \<and> tasks s' = tasks s \<and>
     heap s' = heap s \<and> script_sends t s' = script_sends t s \<and>
     status_updates s' = status_updates s"
proof (cases outcome)
  case ScriptResolved
  with assms show ?thesis by simp
next
  case (ScriptSyntaxError err)
  with assms have "on_script t i outcome s = on_error t err s"
    by (simp add: on_script_def)
  then show ?thesis by blast
next
  case (ScriptThrown err)
  with assms have "on_script t i outcome s = on_error t err (emit (Some t) (ScriptErrorShown err) s)"
    by (simp add: on_script_def)
  moreover have "script_sends t (emit (Some t) (ScriptErrorShown err) s) = script_sends t s"
    "status_updates (emit (Some t) (ScriptErrorShown err) s) = status_updates s"
    by (simp_all add: script_sends_emit status_updates_emit)
  ultimately show ?thesis by (metis emit_fields(1) emit_fields(6))
qed

lemma failed_script_step:
  assumes "t < length (tasks s)" "tpc (tasks s ! t) = AwaitScript i"
    "truthy (tscripts (tasks s ! t) ! i)" "outcome \<noteq> ScriptResolved"
  shows "tpc (tasks (step s (ScriptSettled t outcome)) ! t) = Finished \<and>
     script_sends t (step s (ScriptSettled t outcome)) = script_sends t s \<and>
     status_updates (step s (ScriptSettled t outcome)) =
       status_updates s @
         (if isCancelled (heap s (treq (tasks s ! t))) then [] else [StatusUpdate Error])"
proof -
  from failed_script_on_script [OF assms(3,4)] obtain err s' where
    s': "on_script t i outcome s = on_error t err s'" "tasks s' = tasks s" "heap s' = heap s"
      "script_sends t s' = script_sends t s" "status_updates s' = status_updates s"
    by blast
  from assms(1,2) have "step s (ScriptSettled t outcome) = on_error t err s'"
    by (simp add: s'(1))
  with s' assms(1) show ?thesis by (simp add: status_updates_on_error)
qed

text \<open>The definitions that evaluate a run of the controller on given events.\<close>

lemmas controller_defs =
  exec_def init_def run_def runCore_def rerun_def cancel_def request_cancel_def
  start_send_def start_script_def emit_def set_pc_def finish_def on_error_def on_script_def
  on_response_def preview_def preview_column_def cache_add_def no_request_def Let_def

lemma awaiting_send_facts:
  "tasks awaiting_send =
     [\<lparr>treq = 0, tsettings = example_settings, tdoc = Some 7, tscripts = [], tpc = AwaitSend\<rparr>]"
  "heap awaiting_send 0 = login_request"
  "lastPendingRequest awaiting_send = Some 0"
  "cache awaiting_send = Map.empty"
  "trace awaiting_send = [(Some 0, StatusUpdate Pending), (Some 0, HttpSend 0)]"
  by (simp_all add: awaiting_send_def controller_defs example_settings_def login_request_def)

lemma awaiting_script_facts:
  "tasks awaiting_script =
     [\<lparr>treq = 0, tsettings = example_settings, tdoc = Some 7,
       tscripts = [Some waiting_script], tpc = AwaitScript 0\<rparr>]"
  "heap awaiting_script 0 = scripted_request"
  "trace awaiting_script =
     [(Some 0, StatusUpdate Pending), (Some 0, ScriptExecute waiting_script)]"
  by (simp_all add: awaiting_script_def controller_defs example_settings_def
      scripted_request_def waiting_script_def)

lemma on_script_pending:
  "t < length (tasks s) \<Longrightarrow>
   lastPendingRequest (on_script t i outcome s) =
     (if tpc (tasks (on_script t i outcome s) ! t) = Finished \<and>
         lastPendingRequest s = Some (treq (tasks s ! t))
      then None else lastPendingRequest s)"
  by (simp add: on_script_def Let_def split: script_outcome.splits)

lemma exit_clears_pending:
  assumes "t < length (tasks s)" "tpc (tasks s ! t) \<noteq> Finished"
    "tpc (tasks (step s e) ! t) = Finished"
  shows "lastPendingRequest (step s e) =
     (if lastPendingRequest s = Some (treq (tasks s ! t)) then None else lastPendingRequest s)"
proof (cases e)
  case (Run rq st d)
  with assms show ?thesis by (simp add: run_def Let_def runCore_tasks_eq nth_append)
next
  case Rerun
  with assms show ?thesis
    by (simp add: rerun_def runCore_tasks_eq nth_append split: option.splits prod.splits)
next
  case Cancel
  with assms show ?thesis by (simp add: cancel_def split: option.splits)
next
  case AllWebviewPanelsClosed
  with assms show ?thesis by simp
next
  case (ScriptSettled u outcome)
  with assms show ?thesis
    by (cases "u = t") (auto simp: on_script_pending split: pc.splits if_splits)
next
  case (SendSettled u result editor)
  with assms show ?thesis
    by (cases "u = t") (auto split: sum.splits if_splits)
next
  case (HistorySettled u result)
  with assms show ?thesis
    by (cases "u = t") (auto split: option.splits if_splits)
qed

lemma cancel_heap:
  "heap (cancel s) =
     (case lastPendingRequest s of
        None \<Rightarrow> heap s
      | Some r \<Rightarrow> (heap s)(r := (heap s r)\<lparr>isCancelled := True\<rparr>))"
  by (simp add: cancel_def request_cancel_def split: option.splits)

text \<open>The request, the settings, the document and the scripts of an activation are
  fixed at its entry.\<close>

lemma task_locals_step:
  assumes "t < length (tasks s)"
  shows "treq (tasks (step s e) ! t) = treq (tasks s ! t) \<and>
         tsettings (tasks (step s e) ! t) = tsettings (tasks s ! t) \<and>
         tdoc (tasks (step s e) ! t) = tdoc (tasks s ! t) \<and>
         tscripts (tasks (step s e) ! t) = tscripts (tasks s ! t)"
proof (cases e)
  case (Run rq st d)
  with assms show ?thesis by (simp add: run_def Let_def runCore_tasks_eq nth_append)
next
  case Rerun
  with assms show ?thesis
    by (simp add: rerun_def runCore_tasks_eq nth_append split: option.splits prod.splits)
next
  case Cancel
  with assms show ?thesis by (simp add: cancel_def split: option.splits)
next
  case AllWebviewPanelsClosed
  with assms show ?thesis by simp
next
  case (ScriptSettled u outcome)
  with assms show ?thesis
    by (simp add: on_script_def Let_def nth_list_update
        split: pc.splits script_outcome.splits)
next
  case (SendSettled u result editor)
  with assms show ?thesis by (simp add: nth_list_update split: sum.splits)
next
  case (HistorySettled u result)
  with assms show ?thesis by (simp add: nth_list_update split: option.splits)
qed

subsection \<open>Claims about the controller\<close>




text \<open>
  Claim C2. A step changes the cache only when it is the continuation of a send that
  resolved with a response, for an activation that awaited that send; the change is one
  entry, keyed by the activation's document and the request's name, which both exist and
  the name is not empty, and the step records that one write in the trace of the
  activation. In every reachable state the trace of each activation holds at most one
  write to the cache.
\<close>

theorem cache_written_once_after_response:
  "(cache (step s e) \<noteq> cache s \<longrightarrow>
      (\<exists>t response editor document nm.
         e = SendSettled t (Inr response) editor \<and> t < length (tasks s) \<and>
         tpc (tasks s ! t) = AwaitSend \<and> tdoc (tasks s ! t) = Some document \<and>
         name (heap s (treq (tasks s ! t))) = Some nm \<and> nm \<noteq> [] \<and>
         cache (step s e) = (cache s)((document, nm) \<mapsto> response) \<and>
         cache_writes t (step s e) = cache_writes t s @ [CacheAdd document nm response])) \<and>
   length (cache_writes u (exec init evs)) \<le> 1"
proof -
  have "cache_write_inv u (exec init evs)"
    by (rule cache_write_inv_exec) (rule cache_write_inv_init)
  then have once: "length (cache_writes u (exec init evs)) \<le> 1"
    by (simp add: cache_write_inv_def)
  have "cache (step s e) \<noteq> cache s \<longrightarrow>
      (\<exists>t response editor document nm.
         e = SendSettled t (Inr response) editor \<and> t < length (tasks s) \<and>
         tpc (tasks s ! t) = AwaitSend \<and> tdoc (tasks s ! t) = Some document \<and>
         name (heap s (treq (tasks s ! t))) = Some nm \<and> nm \<noteq> [] \<and>
         cache (step s e) = (cache s)((document, nm) \<mapsto> response) \<and>
         cache_writes t (step s e) = cache_writes t s @ [CacheAdd document nm response])"
  proof (cases e)
    case (Run rq st d)
    then show ?thesis by (simp add: run_def Let_def)
  next
    case Rerun
    then show ?thesis by (simp add: rerun_def split: option.splits prod.splits)
  next
    case Cancel
    then show ?thesis by (simp add: cancel_def split: option.splits)
  next
    case AllWebviewPanelsClosed
    then show ?thesis by simp
  next
    case (ScriptSettled t outcome)
    then show ?thesis
      by (simp add: on_script_def Let_def split: pc.splits script_outcome.splits)
  next
    case (SendSettled t result editor)
    then show ?thesis
      by (cases result)
         (auto simp: on_response_cache cache_writes_on_response split: option.splits if_splits)
  next
    case (HistorySettled t result)
    then show ?thesis by (simp split: option.splits)
  qed
  with once show ?thesis by blast
qed

theorem cache_written_once_after_response_witness:
  "cache (step awaiting_send (SendSettled 0 (Inr (HttpResponse 1)) None)) \<noteq> cache awaiting_send \<and>
   cache (step awaiting_send (SendSettled 0 (Inr (HttpResponse 1)) None)) =
     (cache awaiting_send)((7, ''login'') \<mapsto> HttpResponse 1) \<and>
   length (cache_writes 0
     (exec init [Run login_request example_settings 7,
                 SendSettled 0 (Inr (HttpResponse 1)) None])) \<le> 1"
proof -
  let ?e = "SendSettled 0 (Inr (HttpResponse 1)) None"
  have "cache (step awaiting_send ?e) (7, ''login'') = Some (HttpResponse 1)"
    by (simp add: on_response_cache awaiting_send_facts login_request_def)
  moreover have "cache awaiting_send (7, ''login'') = None"
    by (simp add: awaiting_send_facts)
  ultimately have ne: "cache (step awaiting_send ?e) \<noteq> cache awaiting_send"
    by (metis option.distinct(1))
  note inst = cache_written_once_after_response
    [of awaiting_send ?e 0 "[Run login_request example_settings 7, ?e]"]
  with ne obtain t response editor document nm where
    w: "?e = SendSettled t (Inr response) editor" "tdoc (tasks awaiting_send ! t) = Some document"
      "name (heap awaiting_send (treq (tasks awaiting_send ! t))) = Some nm"
      "cache (step awaiting_send ?e) = (cache awaiting_send)((document, nm) \<mapsto> response)"
    by blast
  from w(1) have "t = 0" "response = HttpResponse 1" by simp_all
  with w(2,3) have "document = 7" "nm = ''login''"
    by (simp_all add: awaiting_send_facts login_request_def)
  with w(4) \<open>response = HttpResponse 1\<close> ne inst show ?thesis by simp
qed

text \<open>
  Claim C4. \<^verbatim>\<open>cancel\<close> sets the flag of the last pending request (and of no other
  object) and reports the status Cancelled. When the send of a flagged request settles,
  with a response or with an error, the step adds nothing to the trace and leaves the
  cache as it is, and the activation never acts again, whatever happens later.
\<close>

theorem cancelled_request_silent:
  "heap (cancel s) =
     (case lastPendingRequest s of
        None \<Rightarrow> heap s
      | Some r \<Rightarrow> (heap s)(r := (heap s r)\<lparr>isCancelled := True\<rparr>)) \<and>
   trace (cancel s) = trace s @ [(None, StatusUpdate Cancelled)] \<and>
   (t < length (tasks s) \<and> tpc (tasks s ! t) = AwaitSend \<and>
    isCancelled (heap s (treq (tasks s ! t))) \<longrightarrow>
      trace (step s (SendSettled t result editor)) = trace s \<and>
      cache (step s (SendSettled t result editor)) = cache s \<and>
      task_actions t (trace (exec (step s (SendSettled t result editor)) evs)) =
        task_actions t (trace s))"
proof -
  have "trace (cancel s) = trace s @ [(None, StatusUpdate Cancelled)]"
    by (simp add: cancel_def split: option.splits)
  moreover
  { assume h: "t < length (tasks s)" "tpc (tasks s ! t) = AwaitSend"
      "isCancelled (heap s (treq (tasks s ! t)))"
    let ?s = "step s (SendSettled t result editor)"
    from h have tr: "trace ?s = trace s" and c: "cache ?s = cache s"
      by (cases result; simp add: on_error_trace on_response_def)+
    from h have "t < length (tasks ?s)" "tpc (tasks ?s ! t) = Finished"
      by (cases result; simp)+
    then have "task_actions t (trace (exec ?s evs)) = task_actions t (trace ?s)"
      using finished_exec by blast
    with tr c have "trace ?s = trace s \<and> cache ?s = cache s \<and>
      task_actions t (trace (exec ?s evs)) = task_actions t (trace s)" by simp }
  ultimately show ?thesis using cancel_heap [of s] by blast
qed

theorem cancelled_request_silent_witness:
  "trace (step (cancel awaiting_send) (SendSettled 0 (Inr (HttpResponse 1)) (Some (Some 1)))) =
     trace (cancel awaiting_send) \<and>
   cache (step (cancel awaiting_send) (SendSettled 0 (Inr (HttpResponse 1)) (Some (Some 1)))) =
     cache (cancel awaiting_send) \<and>
   task_actions 0
     (trace (exec (step (cancel awaiting_send)
                     (SendSettled 0 (Inr (HttpResponse 1)) (Some (Some 1))))
               [SendSettled 0 (Inr (HttpResponse 2)) None, HistorySettled 0 None])) =
     task_actions 0 (trace (cancel awaiting_send)) \<and>
   isCancelled (heap (cancel awaiting_send) 0)"
proof -
  have h: "0 < length (tasks (cancel awaiting_send)) \<and>
      tpc (tasks (cancel awaiting_send) ! 0) = AwaitSend \<and>
      isCancelled (heap (cancel awaiting_send) (treq (tasks (cancel awaiting_send) ! 0)))"
    by (simp add: cancel_def request_cancel_def awaiting_send_facts)
  from cancelled_request_silent
    [of "cancel awaiting_send" 0 "Inr (HttpResponse 1)" "Some (Some 1)"
        "[SendSettled 0 (Inr (HttpResponse 2)) None, HistorySettled 0 None]"] h
  show ?thesis by (simp add: cancel_def request_cancel_def awaiting_send_facts)
qed






section \<open>Response webview (views/httpResponseWebview.ts)\<close>

text \<open>
  The webview keeps the list of its panels, the panel that is active and the response
  shown in each panel. The fields \<^verbatim>\<open>panels\<close>, \<^verbatim>\<open>activePanel\<close> and the event
  \<^verbatim>\<open>onDidCloseAllWebviewPanels\<close> belong to the base class, which is not among the sources;
  they are used here as \<^verbatim>\<open>render\<close> uses them. A panel is an object of the editor: it is
  created by \<^verbatim>\<open>createWebviewPanel\<close>, and the editor calls the handler registered with
  \<^verbatim>\<open>onDidDispose\<close> once, when the panel is closed. \<open>open_panels\<close> are the panels created
  and not yet closed, \<open>closedAllFired\<close> counts the firings of the event, and the title and
  the page of a panel are kept as the response (and test result) they are computed from.
\<close>

type_synonym panel = nat

record webview_settings =
  showResponseInDifferentTab :: bool
  previewResponsePanelTakeFocus :: bool

record webview =
  panels :: "panel list"
  activePanel :: "panel option"
  panelResponses :: "panel \<rightharpoonup> HttpResponse"
  previewActiveContext :: bool
  closedAllFired :: nat
  panel_title :: "panel \<rightharpoonup> HttpResponse"
  panel_html :: "panel \<rightharpoonup> HttpResponse \<times> TestRunnerResult"
  panel_column :: "panel \<rightharpoonup> ViewColumn"
  open_panels :: "panel list"
  next_panel :: panel

text \<open>\<^verbatim>\<open>panels.findIndex(v => v === panel)\<close> (\<open>None\<close> for -1) and
  \<^verbatim>\<open>panels.splice(index, 1)\<close>.\<close>

fun findIndex :: "'a \<Rightarrow> 'a list \<Rightarrow> nat option" where
  "findIndex x [] = None"
| "findIndex x (y # ys) = (if y = x then Some 0 else map_option Suc (findIndex x ys))"

definition splice1 :: "nat \<Rightarrow> 'a list \<Rightarrow> 'a list" where
  "splice1 i xs = take i xs @ drop (Suc i) xs"

text \<open>The handler that \<^verbatim>\<open>render\<close> registers with \<^verbatim>\<open>panel.onDidDispose\<close>.\<close>

definition onDidDispose :: "panel \<Rightarrow> webview \<Rightarrow> webview" where
  "onDidDispose panel w =
     (let w1 = (if activePanel w = Some panel
                then w\<lparr>previewActiveContext := False, activePanel := None\<rparr> else w);
          w2 = (case findIndex panel (panels w1) of
                  None \<Rightarrow> w1
                | Some index \<Rightarrow>
                    w1\<lparr>panels := splice1 index (panels w1),
                       panelResponses := (panelResponses w1)(panel := None)\<rparr>)
      in if panels w2 = [] then w2\<lparr>closedAllFired := Suc (closedAllFired w2)\<rparr> else w2)"

text \<open>The handler that \<^verbatim>\<open>render\<close> registers with \<^verbatim>\<open>panel.onDidChangeViewState\<close>;
  whether the panel, and whether some panel of the list, is active is the editor's
  knowledge.\<close>

definition onDidChangeViewState :: "panel \<Rightarrow> bool \<Rightarrow> bool \<Rightarrow> webview \<Rightarrow> webview" where
  "onDidChangeViewState webviewPanel this_active some_active w =
     w\<lparr>previewActiveContext := some_active,
       activePanel := (if this_active then Some webviewPanel else None)\<rparr>"

text \<open>\<^verbatim>\<open>render\<close>: a new panel, pushed on the list, or the last panel of the list with a
  new title; then the page, the focus context, the reveal in the column, the stored
  response and the active panel.\<close>

definition render ::
  "webview_settings \<Rightarrow> HttpResponse \<Rightarrow> TestRunnerResult \<Rightarrow> ViewColumn \<Rightarrow> webview \<Rightarrow> webview" where
  "render settings response testRunnerResult column w =
     (let (panel, w1) =
            (if showResponseInDifferentTab settings \<or> panels w = []
             then (next_panel w,
                   w\<lparr>next_panel := Suc (next_panel w),
                     open_panels := open_panels w @ [next_panel w],
                     panel_title := (panel_title w)(next_panel w \<mapsto> response),
                     panels := panels w @ [next_panel w]\<rparr>)
             else (last (panels w),
                   w\<lparr>panel_title := (panel_title w)(last (panels w) \<mapsto> response)\<rparr>))
      in w1\<lparr>panel_html := (panel_html w1)(panel \<mapsto> (response, testRunnerResult)),
             previewActiveContext := previewResponsePanelTakeFocus settings,
             panel_column := (panel_column w1)(panel \<mapsto> column),
             panelResponses := (panelResponses w1)(panel \<mapsto> response),
             activePanel := Some panel\<rparr>)"

text \<open>The events of the webview: the controller renders a response; the editor closes a
  panel that is open; the editor reports a change of the view state of an open panel.\<close>

datatype webview_event =
    Render webview_settings HttpResponse TestRunnerResult ViewColumn
  | PanelDisposed panel
  | ViewStateChanged panel bool bool

fun webview_step :: "webview \<Rightarrow> webview_event \<Rightarrow> webview" where
  "webview_step w (Render settings response testRunnerResult column) =
     render settings response testRunnerResult column w"
| "webview_step w (PanelDisposed panel) =
     (if panel \<in> set (open_panels w)
      then onDidDispose panel (w\<lparr>open_panels := removeAll panel (open_panels w)\<rparr>)
      else w)"
| "webview_step w (ViewStateChanged panel this_active some_active) =
     (if panel \<in> set (open_panels w)
      then onDidChangeViewState panel this_active some_active w else w)"

definition webview_exec :: "webview \<Rightarrow> webview_event list \<Rightarrow> webview" where
  "webview_exec w evs = foldl webview_step w evs"

definition new_webview :: webview where
  "new_webview =
     \<lparr>panels = [], activePanel = None, panelResponses = Map.empty,
      previewActiveContext = False, closedAllFired = 0, panel_title = Map.empty,
      panel_html = Map.empty, panel_column = Map.empty, open_panels = [], next_panel = 0\<rparr>"

text \<open>Every panel with a stored response is in the list; the list has no panel twice
  and holds exactly the panels that are open, all of them created.\<close>

definition webview_inv :: "webview \<Rightarrow> bool" where
  "webview_inv w =
     (dom (panelResponses w) \<subseteq> set (panels w) \<and> distinct (panels w) \<and>
      set (panels w) = set (open_panels w) \<and> (\<forall>p \<in> set (panels w). p < next_panel w))"

definition same_tab :: webview_settings where
  "same_tab = \<lparr>showResponseInDifferentTab = False, previewResponsePanelTakeFocus = True\<rparr>"

definition one_panel :: webview where
  "one_panel =
     webview_exec new_webview
       [Render same_tab (HttpResponse 1) (TestRunnerResult (HttpResponse 1) None) 2]"

lemma findIndex_None: "findIndex x xs = None \<longleftrightarrow> x \<notin> set xs"
  by (induction xs) auto

lemma findIndex_splice: "findIndex x xs = Some i \<Longrightarrow> splice1 i xs = remove1 x xs"
proof (induction xs arbitrary: i)
  case Nil
  then show ?case by simp
next
  case (Cons y ys)
  then show ?case by (auto simp: splice1_def split: if_splits)
qed

lemma onDidDispose_panels: "panels (onDidDispose p w) = remove1 p (panels w)"
proof (cases "findIndex p (panels w)")
  case None
  then have "p \<notin> set (panels w)" by (simp add: findIndex_None)
  with None show ?thesis by (simp add: onDidDispose_def Let_def remove1_idem)
next
  case (Some i)
  then show ?thesis by (simp add: onDidDispose_def Let_def findIndex_splice)
qed

lemma onDidDispose_responses:
  "panelResponses (onDidDispose p w) =
     (if p \<in> set (panels w) then (panelResponses w)(p := None) else panelResponses w)"
proof (cases "findIndex p (panels w)")
  case None
  then have "p \<notin> set (panels w)" by (simp add: findIndex_None)
  with None show ?thesis by (simp add: onDidDispose_def Let_def)
next
  case (Some i)
  then have "p \<in> set (panels w)" using findIndex_None [of p "panels w"] by simp
  with Some show ?thesis by (simp add: onDidDispose_def Let_def)
qed

lemma onDidDispose_fired:
  "closedAllFired (onDidDispose p w) =
     (if remove1 p (panels w) = [] then Suc (closedAllFired w) else closedAllFired w)"
proof (cases "findIndex p (panels w)")
  case None
  then have "p \<notin> set (panels w)" by (simp add: findIndex_None)
  with None show ?thesis by (simp add: onDidDispose_def Let_def remove1_idem)
next
  case (Some i)
  then show ?thesis by (simp add: onDidDispose_def Let_def findIndex_splice)
qed

lemma onDidDispose_other [simp]:
  "open_panels (onDidDispose p w) = open_panels w"
  "next_panel (onDidDispose p w) = next_panel w"
  by (simp_all add: onDidDispose_def Let_def split: option.splits)

lemma webview_inv_render:
  "webview_inv w \<Longrightarrow> webview_inv (render settings response trr column w)"
  by (auto simp: webview_inv_def render_def Let_def less_Suc_eq split: if_splits)

lemma webview_inv_dispose:
  assumes "webview_inv w" "p \<in> set (open_panels w)"
  shows "webview_inv (onDidDispose p (w\<lparr>open_panels := removeAll p (open_panels w)\<rparr>))"
  using assms
  by (auto simp: webview_inv_def onDidDispose_panels onDidDispose_responses
      split: if_splits)

lemma webview_inv_view_state:
  "webview_inv w \<Longrightarrow> webview_inv (onDidChangeViewState p a b w)"
  by (auto simp: webview_inv_def onDidChangeViewState_def)

lemma webview_inv_step: "webview_inv w \<Longrightarrow> webview_inv (webview_step w e)"
  by (cases e) (simp_all add: webview_inv_render webview_inv_dispose webview_inv_view_state)

lemma webview_inv_exec: "webview_inv w \<Longrightarrow> webview_inv (webview_exec w evs)"
  unfolding webview_exec_def by (induction evs arbitrary: w) (simp_all add: webview_inv_step)

lemma webview_inv_new: "webview_inv new_webview"
  by (simp add: webview_inv_def new_webview_def)

lemma render_adds:
  "\<exists>p. p \<in> set (panels (render cfg r q c w)) \<and>
       panelResponses (render cfg r q c w) p = Some r \<and>
       activePanel (render cfg r q c w) = Some p"
  by (auto simp: render_def Let_def)

lemma render_reuses:
  "\<not> showResponseInDifferentTab cfg \<and> panels w \<noteq> [] \<longrightarrow>
     panels (render cfg r q c w) = panels w \<and>
     next_panel (render cfg r q c w) = next_panel w \<and>
     activePanel (render cfg r q c w) = Some (last (panels w)) \<and>
     panelResponses (render cfg r q c w) (last (panels w)) = Some r"
  by (simp add: render_def Let_def)

lemma render_panels_nonempty: "panels (render cfg r q c w) \<noteq> []"
  by (simp add: render_def Let_def)

lemma render_fired [simp]: "closedAllFired (render cfg r q c w) = closedAllFired w"
  by (simp add: render_def Let_def split: if_splits)

lemma dispose_removes:
  assumes "webview_inv w" "p \<in> set (open_panels w)"
  shows "p \<notin> set (panels (webview_step w (PanelDisposed p))) \<and>
         panelResponses (webview_step w (PanelDisposed p)) p = None"
  using assms by (auto simp: webview_inv_def onDidDispose_panels onDidDispose_responses)

lemma fired_iff_becomes_empty:
  assumes "webview_inv w"
  shows "closedAllFired (webview_step w e) =
     (if panels w \<noteq> [] \<and> panels (webview_step w e) = [] then Suc (closedAllFired w)
      else closedAllFired w)"
proof (cases e)
  case (Render cfg r q c)
  then show ?thesis by (simp add: render_panels_nonempty)
next
  case (PanelDisposed p)
  with assms show ?thesis
    by (auto simp: webview_inv_def onDidDispose_panels onDidDispose_fired)
next
  case (ViewStateChanged p a b)
  then show ?thesis by (simp add: onDidChangeViewState_def)
qed

lemma one_panel_facts:
  "panels one_panel = [0]" "open_panels one_panel = [0]" "next_panel one_panel = 1"
  "closedAllFired one_panel = 0" "panelResponses one_panel 0 = Some (HttpResponse 1)"
  "activePanel one_panel = Some 0"
  by (simp_all add: one_panel_def webview_exec_def new_webview_def render_def same_tab_def)

text \<open>
  Claim C10. In every state reached by rendering, closing panels and view-state changes,
  every panel with a stored response is in the list of panels. \<^verbatim>\<open>render\<close> leaves its
  panel in the list with the response stored for it; closing an open panel removes it
  from the list and from the stored responses; the event that all panels are closed fires
  in a step exactly when the list was not empty before and is empty after it; and when
  \<^verbatim>\<open>showResponseInDifferentTab\<close> is off and a panel exists, \<^verbatim>\<open>render\<close> creates no panel
  and shows the response in the last panel of the list.
\<close>

theorem stored_responses_belong_to_open_panels:
  "dom (panelResponses (webview_exec new_webview evs)) \<subseteq>
     set (panels (webview_exec new_webview evs)) \<and>
   (\<exists>p. p \<in> set (panels (render cfg r q c w)) \<and>
        panelResponses (render cfg r q c w) p = Some r \<and>
        activePanel (render cfg r q c w) = Some p) \<and>
   (p \<in> set (open_panels (webview_exec new_webview evs)) \<longrightarrow>
      p \<notin> set (panels (webview_step (webview_exec new_webview evs) (PanelDisposed p))) \<and>
      panelResponses (webview_step (webview_exec new_webview evs) (PanelDisposed p)) p = None) \<and>
   closedAllFired (webview_step (webview_exec new_webview evs) e) =
     (if panels (webview_exec new_webview evs) \<noteq> [] \<and>
         panels (webview_step (webview_exec new_webview evs) e) = []
      then Suc (closedAllFired (webview_exec new_webview evs))
      else closedAllFired (webview_exec new_webview evs)) \<and>
   (\<not> showResponseInDifferentTab cfg \<and> panels w \<noteq> [] \<longrightarrow>
     panels (render cfg r q c w) = panels w \<and>
     next_panel (render cfg r q c w) = next_panel w \<and>
     activePanel (render cfg r q c w) = Some (last (panels w)) \<and>
     panelResponses (render cfg r q c w) (last (panels w)) = Some r)"
proof -
  let ?w = "webview_exec new_webview evs"
  have inv: "webview_inv ?w" by (rule webview_inv_exec) (rule webview_inv_new)
  then have stored: "dom (panelResponses ?w) \<subseteq> set (panels ?w)"
    unfolding webview_inv_def by (elim conjE)
  have removed: "p \<in> set (open_panels ?w) \<longrightarrow>
      p \<notin> set (panels (webview_step ?w (PanelDisposed p))) \<and>
      panelResponses (webview_step ?w (PanelDisposed p)) p = None"
    using dispose_removes [OF inv] by blast
  show ?thesis
    by (rule conjI [OF stored conjI [OF render_adds conjI [OF removed
          conjI [OF fired_iff_becomes_empty [OF inv] render_reuses]]]])
qed

theorem stored_responses_belong_to_open_panels_witness:
  "panels (render same_tab (HttpResponse 2) (TestRunnerResult (HttpResponse 2) None) 2 one_panel)
     = [0] \<and>
   panelResponses
     (render same_tab (HttpResponse 2) (TestRunnerResult (HttpResponse 2) None) 2 one_panel) 0
     = Some (HttpResponse 2) \<and>
   0 \<notin> set (panels (webview_step one_panel (PanelDisposed 0))) \<and>
   panelResponses (webview_step one_panel (PanelDisposed 0)) 0 = None \<and>
   closedAllFired (webview_step one_panel (PanelDisposed 0)) = 1"
proof -
  have h: "\<not> showResponseInDifferentTab same_tab \<and> panels one_panel \<noteq> [] \<and>
      0 \<in> set (open_panels one_panel) \<and> last (panels one_panel) = 0"
    by (simp add: one_panel_facts same_tab_def)
  have e: "panels (webview_step one_panel (PanelDisposed 0)) = []"
    by (simp add: one_panel_facts onDidDispose_panels)
  from stored_responses_belong_to_open_panels
    [where evs = "[Render same_tab (HttpResponse 1) (TestRunnerResult (HttpResponse 1) None) 2]"
       and cfg = same_tab and r = "HttpResponse 2"
       and q = "TestRunnerResult (HttpResponse 2) None" and c = 2 and w = one_panel
       and p = 0 and e = "PanelDisposed 0"] h e
  show ?thesis
    unfolding one_panel_def [symmetric] by (simp add: one_panel_facts)
qed

section \<open>Parser factory (models/requestParserFactory.ts)\<close>

text \<open>A JavaScript string is a sequence of UTF-16 code units.\<close>

type_synonym js_string = "16 word list"

text \<open>The class \<^verbatim>\<open>\s\<close> of ECMAScript: white space and line terminators.\<close>

definition is_white_space :: "16 word \<Rightarrow> bool" where
  "is_white_space c =
     (c = 0x09 \<or> c = 0x0A \<or> c = 0x0B \<or> c = 0x0C \<or> c = 0x0D \<or> c = 0x20 \<or> c = 0xA0 \<or>
      c = 0x1680 \<or> (0x2000 \<le> c \<and> c \<le> 0x200A) \<or> c = 0x2028 \<or> c = 0x2029 \<or>
      c = 0x202F \<or> c = 0x205F \<or> c = 0x3000 \<or> c = 0xFEFF)"

text \<open>A letter of the pattern under the flag \<^verbatim>\<open>i\<close> (without \<^verbatim>\<open>u\<close>): a code unit matches
  when both canonicalise to the same upper-case letter; for an ASCII letter these are its
  two cases, since no code unit outside ASCII canonicalises into ASCII.\<close>

definition letter_i :: "16 word \<Rightarrow> 16 word \<Rightarrow> bool" where
  "letter_i lower c = (c = lower \<or> c = lower - 0x20)"

datatype regex_item = Class "16 word \<Rightarrow> bool" | StarClass "16 word \<Rightarrow> bool"

text \<open>A backtracking match of a sequence of items at the start of the input.\<close>

fun match_here :: "regex_item list \<Rightarrow> js_string \<Rightarrow> bool" where
  "match_here [] s = True"
| "match_here (Class p # items) [] = False"
| "match_here (Class p # items) (c # cs) = (p c \<and> match_here items cs)"
| "match_here (StarClass p # items) [] = match_here items []"
| "match_here (StarClass p # items) (c # cs) =
     (match_here items (c # cs) \<or> (p c \<and> match_here (StarClass p # items) cs))"

text \<open>\<^verbatim>\<open>/^\s*curl/i\<close>: anchored at the start of the input, no flag \<^verbatim>\<open>g\<close> or \<^verbatim>\<open>y\<close>,
  so \<^verbatim>\<open>test\<close> tries the start of the input only.\<close>

definition curlRegex :: "regex_item list" where
  "curlRegex =
     [StarClass is_white_space, Class (letter_i 0x63), Class (letter_i 0x75),
      Class (letter_i 0x72), Class (letter_i 0x6C)]"

definition regex_test :: "regex_item list \<Rightarrow> js_string \<Rightarrow> bool" where
  "regex_test items s = match_here items s"

datatype RequestParser =
    CurlRequestParser js_string IRestClientSettings
  | HttpRequestParser js_string IRestClientSettings TextDocument

text \<open>\<^verbatim>\<open>SystemSettings.Instance\<close> is not among the sources; it is a parameter.\<close>

definition createRequestParser ::
  "IRestClientSettings \<Rightarrow> js_string \<Rightarrow> TextDocument \<Rightarrow> IRestClientSettings option \<Rightarrow> RequestParser" where
  "createRequestParser systemSettings rawHttpRequest document settings =
     (let settings' = (case settings of None \<Rightarrow> systemSettings | Some st \<Rightarrow> st) in
      if regex_test curlRegex rawHttpRequest
      then CurlRequestParser rawHttpRequest settings'
      else HttpRequestParser rawHttpRequest settings' document)"

text \<open>The claim's words: the text begins, after optional leading white space, with the
  characters of "curl" in either case.\<close>

definition begins_with_curl :: "js_string \<Rightarrow> bool" where
  "begins_with_curl raw =
     (\<exists>ws c1 c2 c3 c4 rest.
        raw = ws @ [c1, c2, c3, c4] @ rest \<and> (\<forall>c \<in> set ws. is_white_space c) \<and>
        (c1 = 0x63 \<or> c1 = 0x43) \<and> (c2 = 0x75 \<or> c2 = 0x55) \<and>
        (c3 = 0x72 \<or> c3 = 0x52) \<and> (c4 = 0x6C \<or> c4 = 0x4C))"

text \<open>The texts \<^verbatim>\<open>" \tCuRl x"\<close> and \<^verbatim>\<open>"GET x"\<close>.\<close>

definition curl_text :: js_string where
  "curl_text = [0x20, 0x09, 0x43, 0x75, 0x52, 0x6C, 0x20, 0x78]"

definition get_text :: js_string where
  "get_text = [0x47, 0x45, 0x54, 0x20, 0x78]"

lemma match_star:
  "match_here (StarClass p # items) s \<longleftrightarrow>
     (\<exists>ws rest. s = ws @ rest \<and> (\<forall>c \<in> set ws. p c) \<and> match_here items rest)"
proof (induction s)
  case Nil
  then show ?case by simp
next
  case (Cons c cs)
  show ?case
  proof
    assume "match_here (StarClass p # items) (c # cs)"
    then consider "match_here items (c # cs)" | "p c" "match_here (StarClass p # items) cs"
      by auto
    then show "\<exists>ws rest. c # cs = ws @ rest \<and> (\<forall>c \<in> set ws. p c) \<and> match_here items rest"
    proof cases
      case 1
      then have "c # cs = [] @ (c # cs) \<and> (\<forall>c \<in> set []. p c) \<and> match_here items (c # cs)"
        by simp
      then show ?thesis by blast
    next
      case 2
      with Cons.IH obtain ws rest where
        "cs = ws @ rest" "\<forall>c \<in> set ws. p c" "match_here items rest" by blast
      with 2(1) have "c # cs = (c # ws) @ rest \<and> (\<forall>x \<in> set (c # ws). p x) \<and>
          match_here items rest" by simp
      then show ?thesis by blast
    qed
  next
    assume "\<exists>ws rest. c # cs = ws @ rest \<and> (\<forall>c \<in> set ws. p c) \<and> match_here items rest"
    then obtain ws rest where
      w: "c # cs = ws @ rest" "\<forall>c \<in> set ws. p c" "match_here items rest" by blast
    show "match_here (StarClass p # items) (c # cs)"
    proof (cases ws)
      case Nil
      with w have "match_here items (c # cs)" by simp
      then show ?thesis by simp
    next
      case (Cons x xs)
      with w have "c = x" "cs = xs @ rest" "p c" "\<forall>c \<in> set xs. p c" by auto
      with w(3) Cons.IH show ?thesis by auto
    qed
  qed
qed

lemma match_class:
  "match_here (Class p # items) s \<longleftrightarrow> (\<exists>c rest. s = c # rest \<and> p c \<and> match_here items rest)"
  by (cases s) auto

lemma match_four:
  "match_here [Class p1, Class p2, Class p3, Class p4] s \<longleftrightarrow>
     (\<exists>c1 c2 c3 c4 rest. s = [c1, c2, c3, c4] @ rest \<and> p1 c1 \<and> p2 c2 \<and> p3 c3 \<and> p4 c4)"
proof (cases s)
  case Nil
  then show ?thesis by simp
next
  case s1: (Cons c1 r1)
  show ?thesis
  proof (cases r1)
    case Nil
    with s1 show ?thesis by simp
  next
    case s2: (Cons c2 r2)
    show ?thesis
    proof (cases r2)
      case Nil
      with s1 s2 show ?thesis by simp
    next
      case s3: (Cons c3 r3)
      show ?thesis
      proof (cases r3)
        case Nil
        with s1 s2 s3 show ?thesis by simp
      next
        case (Cons c4 r4)
        with s1 s2 s3 show ?thesis by simp
      qed
    qed
  qed
qed

lemma letters:
  "letter_i 0x63 c \<longleftrightarrow> c = 0x63 \<or> c = 0x43"
  "letter_i 0x75 c \<longleftrightarrow> c = 0x75 \<or> c = 0x55"
  "letter_i 0x72 c \<longleftrightarrow> c = 0x72 \<or> c = 0x52"
  "letter_i 0x6C c \<longleftrightarrow> c = 0x6C \<or> c = 0x4C"
  by (simp_all add: letter_i_def)

lemma curlRegex_test: "regex_test curlRegex raw \<longleftrightarrow> begins_with_curl raw"
proof -
  have "regex_test curlRegex raw \<longleftrightarrow>
      (\<exists>ws rest. raw = ws @ rest \<and> (\<forall>c \<in> set ws. is_white_space c) \<and>
         (\<exists>c1 c2 c3 c4 rest'. rest = [c1, c2, c3, c4] @ rest' \<and>
            letter_i 0x63 c1 \<and> letter_i 0x75 c2 \<and> letter_i 0x72 c3 \<and> letter_i 0x6C c4))"
    unfolding regex_test_def curlRegex_def match_star match_four ..
  also have "\<dots> \<longleftrightarrow> begins_with_curl raw"
    unfolding begins_with_curl_def letters by blast
  finally show ?thesis .
qed

text \<open>
  Claim C3. The factory returns the curl parser if and only if the text begins, after
  optional leading white space (the class \<^verbatim>\<open>\s\<close>), with the letters c, u, r, l in either
  case; every other text goes to the plain HTTP parser, with the document. Both parsers
  get the raw text and the settings (the system's when none are given).
\<close>

theorem curl_parser_iff_begins_with_curl:
  "createRequestParser systemSettings raw document settings =
     (if begins_with_curl raw
      then CurlRequestParser raw (case settings of None \<Rightarrow> systemSettings | Some st \<Rightarrow> st)
      else HttpRequestParser raw (case settings of None \<Rightarrow> systemSettings | Some st \<Rightarrow> st)
             document)"
proof -
  have "regex_test curlRegex raw \<longleftrightarrow> begins_with_curl raw"
    by (rule curlRegex_test)
  then show ?thesis
    by (simp add: createRequestParser_def)
qed

theorem curl_parser_iff_begins_with_curl_witness:
  "createRequestParser example_settings curl_text 7 None =
     CurlRequestParser curl_text example_settings \<and>
   createRequestParser example_settings get_text 7 None =
     HttpRequestParser get_text example_settings 7"
proof -
  have "curl_text = [0x20, 0x09] @ [0x43, 0x75, 0x52, 0x6C] @ [0x20, 0x78] \<and>
      (\<forall>c \<in> set [0x20, 0x09 :: 16 word]. is_white_space c)"
    by (simp add: curl_text_def is_white_space_def)
  then have c: "begins_with_curl curl_text"
    unfolding begins_with_curl_def by blast
  have "\<not> regex_test curlRegex get_text"
    by (simp add: regex_test_def curlRegex_def get_text_def is_white_space_def letter_i_def)
  then have g: "\<not> begins_with_curl get_text" by (simp add: curlRegex_test)
  from c g
    curl_parser_iff_begins_with_curl [of example_settings curl_text 7 None]
    curl_parser_iff_begins_with_curl [of example_settings get_text 7 None]
  show ?thesis by simp
qed

section \<open>Selector\<close>

text \<open>
  Modelled from the spec: the Selector (utils/selector) is not among the sources, only its
  callers are. The definitions follow section 4.1 of the specification: a document is cut
  at the lines that begin, after leading white space, with \<^verbatim>\<open>###\<close>; the text before the
  first such line, and the text after each, is a candidate block; the comment lines of
  the form \<^verbatim>\<open>@key[:value]\<close> and the blank lines at the head of a candidate are its
  metadata, the first other line starts its body; a candidate whose trimmed body is empty
  is dropped. A block's range (the field \<open>blockRange\<close>) is the pair of the numbers of its
  first and last line.
\<close>

definition is_blank_char :: "char \<Rightarrow> bool" where
  "is_blank_char c = (c = CHR '' '' \<or> c = CHR 0x09 \<or> c = CHR 0x0A \<or> c = CHR 0x0D)"

definition trim :: "string \<Rightarrow> string" where
  "trim s = rev (dropWhile is_blank_char (rev (dropWhile is_blank_char s)))"

fun split_on :: "('a \<Rightarrow> bool) \<Rightarrow> 'a list \<Rightarrow> 'a list list" where
  "split_on P [] = [[]]"
| "split_on P (x # xs) =
     (if P x then [] # split_on P xs
      else (case split_on P xs of [] \<Rightarrow> [[x]] | g # gs \<Rightarrow> (x # g) # gs))"

definition document_lines :: "string \<Rightarrow> string list" where
  "document_lines text = split_on (\<lambda>c. c = CHR 0x0A) text"

definition is_boundary :: "string \<Rightarrow> bool" where
  "is_boundary line = (take 3 (dropWhile is_blank_char line) = ''###'')"

text \<open>A metadata line: a comment prefix (\<^verbatim>\<open>#\<close> or \<^verbatim>\<open>//\<close>), then \<^verbatim>\<open>@key\<close> and an optional
  \<^verbatim>\<open>:value\<close>.\<close>

definition comment_text :: "string \<Rightarrow> string option" where
  "comment_text line =
     (case dropWhile is_blank_char line of
        c # rest \<Rightarrow>
          if c = CHR ''#'' then Some (dropWhile is_blank_char rest)
          else (case rest of
                  d # rest' \<Rightarrow>
                    if c = CHR ''/'' \<and> d = CHR ''/'' then Some (dropWhile is_blank_char rest')
                    else None
                | [] \<Rightarrow> None)
      | [] \<Rightarrow> None)"

definition metadata_of_line :: "string \<Rightarrow> (string \<times> string option) option" where
  "metadata_of_line line =
     (case comment_text line of
        Some (c # rest) \<Rightarrow>
          if c = CHR ''@'' \<and> takeWhile (\<lambda>x. x \<noteq> CHR '':'') (trim rest) \<noteq> []
          then Some (takeWhile (\<lambda>x. x \<noteq> CHR '':'') (trim rest),
                     (case dropWhile (\<lambda>x. x \<noteq> CHR '':'') (trim rest) of
                        [] \<Rightarrow> None | _ # v \<Rightarrow> Some v))
          else None
      | _ \<Rightarrow> None)"

definition is_head_line :: "string \<Rightarrow> bool" where
  "is_head_line line = (metadata_of_line line \<noteq> None \<or> trim line = [])"

definition join_lines :: "string list \<Rightarrow> string" where
  "join_lines ls = concat (map (\<lambda>l. l @ [CHR 0x0A]) (butlast ls)) @ (if ls = [] then [] else last ls)"

definition body_of :: "string list \<Rightarrow> string" where
  "body_of ls = join_lines (dropWhile is_head_line ls)"

record RequestBlock =
  rawText :: string
  blockRange :: "nat \<times> nat"
  metadata :: "(string \<times> string option) list"

text \<open>The metadata of a candidate: the recognized keys among its head lines; unknown keys
  are ignored.\<close>

definition metadata_of :: "string list \<Rightarrow> string list \<Rightarrow> (string \<times> string option) list" where
  "metadata_of recognized ls =
     filter (\<lambda>kv. fst kv \<in> set recognized)
       (List.map_filter metadata_of_line (takeWhile is_head_line ls))"

text \<open>The candidates: the numbered lines between the boundary lines.\<close>

definition candidates :: "string \<Rightarrow> (nat \<times> string) list list" where
  "candidates text =
     split_on (\<lambda>nl. is_boundary (snd nl)) (enumerate 0 (document_lines text))"

definition empty_body :: "(nat \<times> string) list \<Rightarrow> bool" where
  "empty_body cand = (trim (body_of (map snd cand)) = [])"

definition block_of :: "string list \<Rightarrow> (nat \<times> string) list \<Rightarrow> RequestBlock" where
  "block_of recognized cand =
     \<lparr>rawText = body_of (map snd cand),
      blockRange = (case cand of [] \<Rightarrow> (0, 0) | nl # _ \<Rightarrow> (fst nl, fst (last cand))),
      metadata = metadata_of recognized (map snd cand)\<rparr>"

text \<open>Modelled from the spec: \<^verbatim>\<open>Selector.split\<close>, which is not among the sources; the
  candidates whose trimmed body is not empty, in the order of the document.\<close>

definition split :: "string list \<Rightarrow> string \<Rightarrow> RequestBlock list" where
  "split recognized text =
     map (block_of recognized) (filter (\<lambda>cand. \<not> empty_body cand) (candidates text))"

definition example_document :: string where
  "example_document =
     ''# @name:first'' @ [CHR 0x0A] @ ''GET a'' @ [CHR 0x0A] @ ''###'' @ [CHR 0x0A] @
     ''  '' @ [CHR 0x0A] @ '' ### second'' @ [CHR 0x0A] @ ''GET b''"

lemma split_on_nonempty: "split_on P xs \<noteq> []"
  by (induction xs) (auto split: list.splits)

lemma length_split_on: "length (split_on P xs) = Suc (length (filter P xs))"
  by (induction xs) (auto simp: split_on_nonempty split: list.splits)

lemma length_candidates:
  "length (candidates text) = Suc (length (filter is_boundary (document_lines text)))"
proof -
  let ?es = "enumerate 0 (document_lines text)"
  have "length (filter (\<lambda>nl. is_boundary (snd nl)) ?es) =
      length (map snd (filter (is_boundary \<circ> snd) ?es))"
    by (simp add: comp_def)
  also have "\<dots> = length (filter is_boundary (map snd ?es))"
    by (simp only: filter_map)
  finally show ?thesis by (simp add: candidates_def length_split_on)
qed

text \<open>
  Claim C5. The blocks returned and the candidates with an empty trimmed body together
  are as many as the boundary lines plus one, and no block returned has an empty trimmed
  body.
\<close>

theorem split_block_count:
  "length (split recognized text) + length (filter empty_body (candidates text)) =
     Suc (length (filter is_boundary (document_lines text))) \<and>
   (\<forall>b \<in> set (split recognized text). trim (rawText b) \<noteq> [])"
proof -
  have "length (filter (\<lambda>cand. \<not> empty_body cand) (candidates text)) +
      length (filter empty_body (candidates text)) = length (candidates text)"
    using sum_length_filter_compl [of empty_body "candidates text"] by simp
  then have count: "length (split recognized text) +
      length (filter empty_body (candidates text)) =
     Suc (length (filter is_boundary (document_lines text)))"
    by (simp add: split_def length_candidates)
  have "\<forall>b \<in> set (split recognized text). trim (rawText b) \<noteq> []"
    by (auto simp: split_def block_of_def empty_body_def)
  with count show ?thesis by simp
qed

theorem split_block_count_witness:
  "length (filter is_boundary (document_lines example_document)) = 2 \<and>
   length (filter empty_body (candidates example_document)) = 1 \<and>
   length (split [''name''] example_document) = 2 \<and>
   trim (rawText (split [''name''] example_document ! 0)) \<noteq> []"
proof -
  have b: "length (filter is_boundary (document_lines example_document)) = 2"
    by code_simp
  have e: "length (filter empty_body (candidates example_document)) = 1"
    by code_simp
  note c = split_block_count [of "[''name'']" example_document]
  with b e have l: "length (split [''name''] example_document) = 2" by simp
  then have "split [''name''] example_document ! 0 \<in> set (split [''name''] example_document)"
    by simp
  with c have "trim (rawText (split [''name''] example_document ! 0)) \<noteq> []" by blast
  with b e l show ?thesis by simp
qed

section \<open>Variable resolver\<close>

text \<open>
  Modelled from the spec: the VariableResolver and the variable providers are not among
  the sources. The definitions follow sections 3, 4.4 and 4.5 of the specification.
  Values are strings (the structural substitution of a native value for a field that is
  one placeholder is outside the model). What the specification leaves open is a
  parameter: the maximum recursion depth, the built-in system functions with their clock
  and random source (a function of the name, the arguments and the number of draws made
  so far), and the reading of a path in a cached response.
\<close>

datatype diagnostic =
    UnresolvedVariableWarning string
  | CircularVariableReference "string list"
  | UnknownSystemFunctionArgument string

subsection \<open>Scanner\<close>

datatype segment = Literal string | Placeholder string

text \<open>The end of a span: \<open>d\<close> is the depth of braces opened inside the span. One level
  is permitted; a brace opened inside it, a closing brace that closes nothing, or the end
  of the text, and the span is not a placeholder. The result is the text inside the span
  and the text after it.\<close>

fun span_end :: "nat \<Rightarrow> string \<Rightarrow> (string \<times> string) option" where
  "span_end d [] = None"
| "span_end d (c # cs) =
     (if c = CHR ''}'' then
        (if d = 0
         then (case cs of
                 [] \<Rightarrow> None
               | c' # cs' \<Rightarrow> if c' = CHR ''}'' then Some ([], cs') else None)
         else map_option (\<lambda>(inner, rest). (c # inner, rest)) (span_end (d - 1) cs))
      else if c = CHR ''{'' then
        (if d = 0 then map_option (\<lambda>(inner, rest). (c # inner, rest)) (span_end 1 cs)
         else None)
      else map_option (\<lambda>(inner, rest). (c # inner, rest)) (span_end d cs))"

function scan :: "string \<Rightarrow> segment list" where
  "scan [] = []"
| "scan [c] = [Literal [c]]"
| "scan (c # c' # cs) =
     (if c = CHR ''{'' \<and> c' = CHR ''{''
      then (case span_end 0 cs of
              None \<Rightarrow> Literal [c] # scan (c' # cs)
            | Some (inner, rest) \<Rightarrow> Placeholder inner # scan rest)
      else Literal [c] # scan (c' # cs))"
  by pat_completeness auto
termination
proof -
  have shorter: "length rest < length s" if "span_end d s = Some (inner, rest)"
    for d s inner rest
    using that
  proof (induction s arbitrary: d inner)
    case Nil
    then show ?case by simp
  next
    case (Cons c cs)
    then show ?case by (fastforce split: if_splits list.splits)
  qed
  show ?thesis
    by (relation "measure length") (auto dest: shorter)
qed

definition raw_token :: "string \<Rightarrow> string" where
  "raw_token inner = ''{{'' @ inner @ ''}}''"

fun segment_text :: "segment \<Rightarrow> string" where
  "segment_text (Literal l) = l"
| "segment_text (Placeholder inner) = raw_token inner"

subsection \<open>Placeholders\<close>

record placeholder =
  variableName :: string
  arguments :: "string list"
  path :: "string option"
  fallback :: "string option"

definition after_first :: "char \<Rightarrow> string \<Rightarrow> string option" where
  "after_first sep s = (case dropWhile (\<lambda>c. c \<noteq> sep) s of [] \<Rightarrow> None | _ # r \<Rightarrow> Some r)"

definition words :: "string \<Rightarrow> string list" where
  "words s = filter (\<lambda>w. w \<noteq> []) (split_on is_blank_char s)"

text \<open>\<^verbatim>\<open>variableName[.path][|fallback]\<close>; a system function has its arguments after its
  name, separated by white space.\<close>

definition parse_placeholder :: "string \<Rightarrow> placeholder" where
  "parse_placeholder inner =
     (let expr = trim (takeWhile (\<lambda>c. c \<noteq> CHR ''|'') (trim inner));
          fb = after_first (CHR ''|'') (trim inner)
      in if take 1 expr = ''$''
         then \<lparr>variableName = (case words expr of [] \<Rightarrow> expr | w # _ \<Rightarrow> w),
               arguments = tl (words expr), path = None, fallback = fb\<rparr>
         else \<lparr>variableName = takeWhile (\<lambda>c. c \<noteq> CHR ''.'') expr, arguments = [],
               path = after_first (CHR ''.'') expr, fallback = fb\<rparr>)"

subsection \<open>Providers\<close>

datatype lookup = Found string | NotFound | BadArgument

datatype provider =
    SystemFunctions "string \<Rightarrow> string list \<Rightarrow> nat \<Rightarrow> lookup"
  | RequestVariables "TextDocument \<times> string \<rightharpoonup> HttpResponse" TextDocument
      "HttpResponse \<Rightarrow> string \<Rightarrow> string option"
  | FileScoped "string \<rightharpoonup> string"
  | EnvironmentProfile "string \<rightharpoonup> string"
  | ProcessEnvironment "string \<rightharpoonup> string"

definition is_request_path :: "string \<Rightarrow> bool" where
  "is_request_path p =
     (takeWhile (\<lambda>c. c \<noteq> CHR ''.'') p = ''response'' \<or>
      takeWhile (\<lambda>c. c \<noteq> CHR ''.'') p = ''request'')"

fun canResolve :: "provider \<Rightarrow> placeholder \<Rightarrow> bool" where
  "canResolve (SystemFunctions f) ph = (take 1 (variableName ph) = ''$'')"
| "canResolve (RequestVariables snapshot document read) ph =
     (case path ph of None \<Rightarrow> False | Some p \<Rightarrow> is_request_path p)"
| "canResolve (FileScoped vars) ph = (vars (variableName ph) \<noteq> None)"
| "canResolve (EnvironmentProfile vars) ph = (vars (variableName ph) \<noteq> None)"
| "canResolve (ProcessEnvironment vars) ph = (vars (variableName ph) \<noteq> None)"

definition of_option :: "string option \<Rightarrow> lookup" where
  "of_option v = (case v of None \<Rightarrow> NotFound | Some x \<Rightarrow> Found x)"

text \<open>The answer of a provider and the number of draws from the clock and random source
  after it. A request that has no cached response is not found.\<close>

fun provider_resolve :: "provider \<Rightarrow> placeholder \<Rightarrow> nat \<Rightarrow> lookup \<times> nat" where
  "provider_resolve (SystemFunctions f) ph draws =
     (f (variableName ph) (arguments ph) draws, Suc draws)"
| "provider_resolve (RequestVariables snapshot document read) ph draws =
     (case (snapshot (document, variableName ph), path ph) of
        (Some response, Some p) \<Rightarrow> (of_option (read response p), draws)
      | _ \<Rightarrow> (NotFound, draws))"
| "provider_resolve (FileScoped vars) ph draws = (of_option (vars (variableName ph)), draws)"
| "provider_resolve (EnvironmentProfile vars) ph draws =
     (of_option (vars (variableName ph)), draws)"
| "provider_resolve (ProcessEnvironment vars) ph draws =
     (of_option (vars (variableName ph)), draws)"

record providers =
  systemFunctions :: "string \<Rightarrow> string list \<Rightarrow> nat \<Rightarrow> lookup"
  cacheSnapshot :: "TextDocument \<times> string \<rightharpoonup> HttpResponse"
  documentIdentity :: TextDocument
  readResponse :: "HttpResponse \<Rightarrow> string \<Rightarrow> string option"
  fileVariables :: "string \<rightharpoonup> string"
  environmentVariables :: "string \<rightharpoonup> string"
  processEnvironment :: "string \<rightharpoonup> string"
  maxDepth :: nat

text \<open>The providers in their order of priority.\<close>

definition provider_chain :: "providers \<Rightarrow> provider list" where
  "provider_chain ps =
     [SystemFunctions (systemFunctions ps),
      RequestVariables (cacheSnapshot ps) (documentIdentity ps) (readResponse ps),
      FileScoped (fileVariables ps),
      EnvironmentProfile (environmentVariables ps),
      ProcessEnvironment (processEnvironment ps)]"

definition is_recognized :: "providers \<Rightarrow> placeholder \<Rightarrow> bool" where
  "is_recognized ps ph = (\<exists>p \<in> set (provider_chain ps). canResolve p ph)"

text \<open>The first provider that recognizes the name answers; \<open>None\<close> when none does.\<close>

definition query :: "providers \<Rightarrow> placeholder \<Rightarrow> nat \<Rightarrow> (lookup \<times> nat) option" where
  "query ps ph draws =
     map_option (\<lambda>p. provider_resolve p ph draws)
       (find (\<lambda>p. canResolve p ph) (provider_chain ps))"

subsection \<open>Resolution\<close>

datatype outcome = Value string "diagnostic list" | Failure diagnostic

text \<open>The texts of the segments of a value, joined; the first failure aborts.\<close>

fun join_outcome :: "outcome \<Rightarrow> outcome \<Rightarrow> outcome" where
  "join_outcome (Failure e) _ = Failure e"
| "join_outcome (Value v ws) (Failure e) = Failure e"
| "join_outcome (Value v ws) (Value v' ws') = Value (v @ v') (ws @ ws')"

text \<open>Modelled from the spec: the recursive resolution of the VariableResolver, which is
  not among the sources. One span with \<open>d\<close> further resolutions allowed, in a chain of
  names: a name of the chain
  is a circular reference; a name that no provider recognizes, or that its provider does
  not find and that has no fallback, stays as it is, with a warning; a value found is
  resolved again while the depth allows it.\<close>

primrec resolve_span ::
  "nat \<Rightarrow> providers \<Rightarrow> string list \<Rightarrow> string \<Rightarrow> nat \<Rightarrow> outcome \<times> nat" where
  "resolve_span 0 ps chain inner draws =
     (let ph = parse_placeholder inner in
      if variableName ph \<in> set chain
      then (Failure (CircularVariableReference (chain @ [variableName ph])), draws)
      else (case query ps ph draws of
              None \<Rightarrow> (Value (raw_token inner) [UnresolvedVariableWarning (variableName ph)], draws)
            | Some (Found v, draws') \<Rightarrow> (Value v [], draws')
            | Some (NotFound, draws') \<Rightarrow>
                (case fallback ph of
                   Some fb \<Rightarrow> (Value fb [], draws')
                 | None \<Rightarrow>
                     (Value (raw_token inner) [UnresolvedVariableWarning (variableName ph)],
                      draws'))
            | Some (BadArgument, draws') \<Rightarrow>
                (Failure (UnknownSystemFunctionArgument (variableName ph)), draws')))"
| "resolve_span (Suc d) ps chain inner draws =
     (let ph = parse_placeholder inner in
      if variableName ph \<in> set chain
      then (Failure (CircularVariableReference (chain @ [variableName ph])), draws)
      else (case query ps ph draws of
              None \<Rightarrow> (Value (raw_token inner) [UnresolvedVariableWarning (variableName ph)], draws)
            | Some (Found v, draws') \<Rightarrow>
                foldl (\<lambda>(acc, n) seg.
                         (case seg of
                            Literal l \<Rightarrow> (join_outcome acc (Value l []), n)
                          | Placeholder i \<Rightarrow>
                              (case resolve_span d ps (chain @ [variableName ph]) i n of
                                 (out, n') \<Rightarrow> (join_outcome acc out, n'))))
                  (Value [] [], draws') (scan v)
            | Some (NotFound, draws') \<Rightarrow>
                (case fallback ph of
                   Some fb \<Rightarrow> (Value fb [], draws')
                 | None \<Rightarrow>
                     (Value (raw_token inner) [UnresolvedVariableWarning (variableName ph)],
                      draws'))
            | Some (BadArgument, draws') \<Rightarrow>
                (Failure (UnknownSystemFunctionArgument (variableName ph)), draws')))"

text \<open>Modelled from the spec: the resolution of one field by the VariableResolver, which
  is not among the sources. Every top-level span is resolved with the whole depth and an
  empty chain; a span that fails keeps its text and reports the error.\<close>

definition resolve_segment ::
  "providers \<Rightarrow> string \<times> diagnostic list \<times> nat \<Rightarrow> segment \<Rightarrow> string \<times> diagnostic list \<times> nat" where
  "resolve_segment ps acc seg =
     (case acc of (text, diags, draws) \<Rightarrow>
        (case seg of
           Literal l \<Rightarrow> (text @ l, diags, draws)
         | Placeholder inner \<Rightarrow>
             (case resolve_span (maxDepth ps) ps [] inner draws of
                (Value v ws, draws') \<Rightarrow> (text @ v, diags @ ws, draws')
              | (Failure e, draws') \<Rightarrow> (text @ raw_token inner, diags @ [e], draws'))))"

definition resolve_field :: "providers \<Rightarrow> string \<Rightarrow> nat \<Rightarrow> string \<times> diagnostic list \<times> nat" where
  "resolve_field ps text draws = foldl (resolve_segment ps) ([], [], draws) (scan text)"

subsection \<open>Descriptors\<close>

datatype body = TextBody string | FileReference string

record RequestDescriptor =
  requestMethod :: string
  url :: string
  headers :: "(string \<times> string) list"
  body :: "body option"
  requestName :: "string option"
  preRequestScript :: "string option"
  testScript :: "string option"

text \<open>The string-valued fields of a descriptor, in the order they are resolved (a
  header's value, not its key; a body that is text, not a reference to a file).\<close>

definition descriptor_fields :: "RequestDescriptor \<Rightarrow> string list" where
  "descriptor_fields d =
     [requestMethod d, url d] @ map snd (headers d) @
     (case body d of Some (TextBody b) \<Rightarrow> [b] | _ \<Rightarrow> []) @
     (case requestName d of Some n \<Rightarrow> [n] | None \<Rightarrow> []) @
     (case preRequestScript d of Some n \<Rightarrow> [n] | None \<Rightarrow> []) @
     (case testScript d of Some n \<Rightarrow> [n] | None \<Rightarrow> [])"

type_synonym resolution = "diagnostic list \<times> nat"

definition resolve_string :: "providers \<Rightarrow> string \<Rightarrow> resolution \<Rightarrow> string \<times> resolution" where
  "resolve_string ps text st =
     (case resolve_field ps text (snd st) of
        (text', diags, draws') \<Rightarrow> (text', fst st @ diags, draws'))"

definition resolve_optional ::
  "providers \<Rightarrow> string option \<Rightarrow> resolution \<Rightarrow> string option \<times> resolution" where
  "resolve_optional ps field st =
     (case field of
        None \<Rightarrow> (None, st)
      | Some text \<Rightarrow> (case resolve_string ps text st of (text', st') \<Rightarrow> (Some text', st')))"

fun resolve_headers ::
  "providers \<Rightarrow> (string \<times> string) list \<Rightarrow> resolution \<Rightarrow> (string \<times> string) list \<times> resolution" where
  "resolve_headers ps [] st = ([], st)"
| "resolve_headers ps ((k, v) # hs) st =
     (case resolve_string ps v st of
        (v', st') \<Rightarrow> (case resolve_headers ps hs st' of (hs', st'') \<Rightarrow> ((k, v') # hs', st'')))"

definition resolve_body :: "providers \<Rightarrow> body option \<Rightarrow> resolution \<Rightarrow> body option \<times> resolution" where
  "resolve_body ps b st =
     (case b of
        Some (TextBody text) \<Rightarrow>
          (case resolve_string ps text st of (text', st') \<Rightarrow> (Some (TextBody text'), st'))
      | _ \<Rightarrow> (b, st))"

text \<open>Modelled from the spec: \<^verbatim>\<open>resolve(descriptor, providers, cacheSnapshot)\<close> of the
  VariableResolver, which is not among the sources; the snapshot of the cache is a field
  of the providers, and the number of draws from the clock and random source is passed
  along.\<close>

definition resolve ::
  "providers \<Rightarrow> RequestDescriptor \<Rightarrow> nat \<Rightarrow> RequestDescriptor \<times> diagnostic list \<times> nat" where
  "resolve ps d draws =
     (case resolve_string ps (requestMethod d) ([], draws) of (m, st1) \<Rightarrow>
      case resolve_string ps (url d) st1 of (u, st2) \<Rightarrow>
      case resolve_headers ps (headers d) st2 of (hs, st3) \<Rightarrow>
      case resolve_body ps (body d) st3 of (b, st4) \<Rightarrow>
      case resolve_optional ps (requestName d) st4 of (n, st5) \<Rightarrow>
      case resolve_optional ps (preRequestScript d) st5 of (pre, st6) \<Rightarrow>
      case resolve_optional ps (testScript d) st6 of (test, st7) \<Rightarrow>
        (\<lparr>requestMethod = m, url = u, headers = hs, body = b, requestName = n,
          preRequestScript = pre, testScript = test\<rparr>, st7))"

text \<open>The placeholders of a text and of a descriptor, and the warning for one that no
  provider recognizes.\<close>

definition spans :: "string \<Rightarrow> string list" where
  "spans text = concat (map (\<lambda>seg. case seg of Literal l \<Rightarrow> [] | Placeholder i \<Rightarrow> [i]) (scan text))"

definition descriptor_spans :: "RequestDescriptor \<Rightarrow> string list" where
  "descriptor_spans d = concat (map spans (descriptor_fields d))"

definition unresolved :: "string \<Rightarrow> diagnostic" where
  "unresolved inner = UnresolvedVariableWarning (variableName (parse_placeholder inner))"

definition fully_resolved :: "providers \<Rightarrow> RequestDescriptor \<Rightarrow> bool" where
  "fully_resolved ps d =
     (\<forall>inner \<in> set (descriptor_spans d). \<not> is_recognized ps (parse_placeholder inner))"

subsection \<open>Plain variable names\<close>

definition is_name_char :: "char \<Rightarrow> bool" where
  "is_name_char c =
     (c \<noteq> CHR ''{'' \<and> c \<noteq> CHR ''}'' \<and> c \<noteq> CHR ''.'' \<and> c \<noteq> CHR ''|'' \<and> c \<noteq> CHR ''$'' \<and>
      \<not> is_blank_char c)"

definition valid_name :: "string \<Rightarrow> bool" where
  "valid_name n = (n \<noteq> [] \<and> list_all is_name_char n)"

definition example_providers :: providers where
  "example_providers =
     \<lparr>systemFunctions = (\<lambda>_ _ _. NotFound), cacheSnapshot = Map.empty, documentIdentity = 7,
      readResponse = (\<lambda>_ _. None),
      fileVariables = [''a'' \<mapsto> ''{{b}}'', ''b'' \<mapsto> ''{{a}}''],
      environmentVariables = Map.empty, processEnvironment = Map.empty, maxDepth = 4\<rparr>"

definition example_descriptor :: RequestDescriptor where
  "example_descriptor =
     \<lparr>requestMethod = ''GET'', url = ''x/{{zzz}}'', headers = [(''Accept'', ''text'')],
      body = None, requestName = Some ''login'', preRequestScript = None,
      testScript = None\<rparr>"

subsection \<open>The scanner returns the text it was given\<close>

lemma span_end_Cons:
  assumes "span_end d (c # cs) = Some (inner, rest)" "\<not> (c = CHR ''}'' \<and> d = 0)"
  shows "\<exists>d' inner'. span_end d' cs = Some (inner', rest) \<and> inner = c # inner'"
proof -
  from assms obtain d' where
    "map_option (\<lambda>(inner, rest). (c # inner, rest)) (span_end d' cs) = Some (inner, rest)"
    by (cases "c = CHR ''}''"; cases "c = CHR ''{''"; cases "d = 0") auto
  then obtain z where z: "span_end d' cs = Some z" "(\<lambda>(inner, rest). (c # inner, rest)) z = (inner, rest)"
    by (cases "span_end d' cs") auto
  obtain i r where "z = (i, r)" by (cases z)
  with z show ?thesis by auto
qed

lemma span_end_text:
  "span_end d s = Some (inner, rest) \<Longrightarrow> s = inner @ ''}}'' @ rest"
proof (induction s arbitrary: d inner)
  case Nil
  then show ?case by simp
next
  case (Cons c cs)
  note IH = Cons.IH and eq = Cons.prems
  show ?case
  proof (cases "c = CHR ''}'' \<and> d = 0")
    case True
    with eq show ?thesis by (cases cs) (auto split: if_splits)
  next
    case False
    from span_end_Cons [OF eq False] obtain d' inner' where
      "span_end d' cs = Some (inner', rest)" "inner = c # inner'" by blast
    with IH [of d' inner'] show ?thesis by simp
  qed
qed

lemma scan_text: "concat (map segment_text (scan s)) = s"
proof (induction s rule: scan.induct)
  case 1
  then show ?case by simp
next
  case (2 c)
  then show ?case by simp
next
  case (3 c c' cs)
  show ?case
  proof (cases "c = CHR ''{'' \<and> c' = CHR ''{''")
    case False
    with "3.IH"(3) show ?thesis by auto
  next
    case True
    show ?thesis
    proof (cases "span_end 0 cs")
      case None
      with True "3.IH"(1) show ?thesis by simp
    next
      case (Some a)
      obtain inner rest where a: "a = (inner, rest)" by (cases a)
      with Some have e: "span_end 0 cs = Some (inner, rest)" by simp
      then have "cs = inner @ ''}}'' @ rest" by (rule span_end_text)
      with True e "3.IH"(2) [OF True e refl] show ?thesis by (simp add: raw_token_def)
    qed
  qed
qed

subsection \<open>Placeholders that no provider recognizes\<close>

lemma query_unrecognized: "\<not> is_recognized ps ph \<Longrightarrow> query ps ph draws = None"
  by (simp add: query_def is_recognized_def find_None_iff)

lemma resolve_span_unrecognized:
  "\<not> is_recognized ps (parse_placeholder inner) \<Longrightarrow>
   resolve_span d ps [] inner draws = (Value (raw_token inner) [unresolved inner], draws)"
  by (cases d) (simp_all add: query_unrecognized unresolved_def Let_def)

lemma foldl_resolve_segment_unrecognized:
  assumes "\<forall>seg \<in> set segs. \<forall>i. seg = Placeholder i \<longrightarrow> \<not> is_recognized ps (parse_placeholder i)"
  shows "foldl (resolve_segment ps) (out, diags, draws) segs =
     (out @ concat (map segment_text segs),
      diags @ map unresolved
        (concat (map (\<lambda>seg. case seg of Literal l \<Rightarrow> [] | Placeholder i \<Rightarrow> [i]) segs)),
      draws)"
  using assms
proof (induction segs arbitrary: out diags)
  case Nil
  then show ?case by simp
next
  case (Cons seg segs)
  show ?case
  proof (cases seg)
    case (Literal l)
    with Cons show ?thesis by (simp add: resolve_segment_def)
  next
    case (Placeholder i)
    with Cons.prems have "\<not> is_recognized ps (parse_placeholder i)" by simp
    with Placeholder Cons show ?thesis
      by (simp add: resolve_segment_def resolve_span_unrecognized)
  qed
qed

lemma resolve_field_unrecognized:
  assumes "\<forall>i \<in> set (spans text). \<not> is_recognized ps (parse_placeholder i)"
  shows "resolve_field ps text draws = (text, map unresolved (spans text), draws)"
proof -
  have "\<forall>seg \<in> set (scan text). \<forall>i. seg = Placeholder i \<longrightarrow>
      \<not> is_recognized ps (parse_placeholder i)"
    using assms by (auto simp: spans_def)
  from foldl_resolve_segment_unrecognized [OF this, of "[]" "[]" draws]
  show ?thesis by (simp add: resolve_field_def scan_text spans_def)
qed

lemma resolve_string_unrecognized:
  assumes "\<forall>i \<in> set (spans text). \<not> is_recognized ps (parse_placeholder i)"
  shows "resolve_string ps text (diags, draws) =
     (text, diags @ map unresolved (spans text), draws)"
  by (simp add: resolve_string_def resolve_field_unrecognized [OF assms])

lemma resolve_optional_unrecognized:
  assumes "\<forall>text. field = Some text \<longrightarrow>
     (\<forall>i \<in> set (spans text). \<not> is_recognized ps (parse_placeholder i))"
  shows "resolve_optional ps field (diags, draws) =
     (field, diags @ map unresolved (case field of None \<Rightarrow> [] | Some text \<Rightarrow> spans text), draws)"
  using assms by (cases field) (simp_all add: resolve_optional_def resolve_string_unrecognized)

lemma resolve_headers_unrecognized:
  assumes "\<forall>h \<in> set hs. \<forall>i \<in> set (spans (snd h)). \<not> is_recognized ps (parse_placeholder i)"
  shows "resolve_headers ps hs (diags, draws) =
     (hs, diags @ map unresolved (concat (map spans (map snd hs))), draws)"
  using assms
proof (induction hs arbitrary: diags)
  case Nil
  then show ?case by simp
next
  case (Cons h hs)
  obtain k v where h: "h = (k, v)" by (cases h)
  with Cons.prems have v: "\<forall>i \<in> set (spans v). \<not> is_recognized ps (parse_placeholder i)"
    and hs: "\<forall>h \<in> set hs. \<forall>i \<in> set (spans (snd h)). \<not> is_recognized ps (parse_placeholder i)"
    by simp_all
  show ?case
    unfolding h
    by (simp add: resolve_string_unrecognized [OF v] Cons.IH [OF hs])
qed

lemma resolve_body_unrecognized:
  assumes "\<forall>text. b = Some (TextBody text) \<longrightarrow>
     (\<forall>i \<in> set (spans text). \<not> is_recognized ps (parse_placeholder i))"
  shows "resolve_body ps b (diags, draws) =
     (b, diags @ map unresolved (case b of Some (TextBody text) \<Rightarrow> spans text | _ \<Rightarrow> []), draws)"
proof (cases b)
  case None
  then show ?thesis by (simp add: resolve_body_def)
next
  case (Some x)
  show ?thesis
  proof (cases x)
    case (TextBody tb)
    with Some assms have "\<forall>i \<in> set (spans tb). \<not> is_recognized ps (parse_placeholder i)"
      by simp
    with Some TextBody show ?thesis
      by (simp add: resolve_body_def resolve_string_unrecognized)
  next
    case (FileReference f)
    with Some show ?thesis by (simp add: resolve_body_def)
  qed
qed

lemma dropWhile_none: "\<forall>c \<in> set s. \<not> P c \<Longrightarrow> dropWhile P s = s"
  by (cases s) simp_all

lemma takeWhile_all: "\<forall>c \<in> set s. P c \<Longrightarrow> takeWhile P s = s"
  by (induction s) simp_all

lemma trim_name: "list_all is_name_char n \<Longrightarrow> trim n = n"
  by (simp add: trim_def dropWhile_none list_all_iff is_name_char_def)

lemma parse_valid_name:
  assumes "valid_name n"
  shows "parse_placeholder n =
     \<lparr>variableName = n, arguments = [], path = None, fallback = None\<rparr>"
proof -
  from assms have all: "list_all is_name_char n" and ne: "n \<noteq> []"
    by (simp_all add: valid_name_def)
  from all have t: "trim n = n" by (rule trim_name)
  from all have bar: "takeWhile (\<lambda>c. c \<noteq> CHR ''|'') n = n"
    and dot: "takeWhile (\<lambda>c. c \<noteq> CHR ''.'') n = n"
    by (simp_all add: takeWhile_all list_all_iff is_name_char_def)
  from all have nobar: "dropWhile (\<lambda>c. c \<noteq> CHR ''|'') n = []"
    and nodot: "dropWhile (\<lambda>c. c \<noteq> CHR ''.'') n = []"
    by (simp_all add: list_all_iff is_name_char_def)
  from all ne have dollar: "take (Suc 0) n \<noteq> ''$''"
    by (cases n) (simp_all add: is_name_char_def)
  show ?thesis
    by (simp add: parse_placeholder_def Let_def t bar dot nobar nodot dollar after_first_def)
qed

lemma span_end_name:
  "list_all is_name_char n \<Longrightarrow> span_end 0 (n @ ''}}'' @ rest) = Some (n, rest)"
  by (induction n) (simp_all add: is_name_char_def)

lemma scan_raw_token: "valid_name n \<Longrightarrow> scan (raw_token n) = [Placeholder n]"
  by (simp add: raw_token_def valid_name_def span_end_name [of n "[]", simplified])

lemma query_file_variable:
  assumes "valid_name n" "fileVariables ps n = Some v"
  shows "query ps (parse_placeholder n) draws = Some (Found v, draws)"
proof -
  from assms(1) have "take (Suc 0) n \<noteq> ''$''"
    by (cases n) (simp_all add: valid_name_def is_name_char_def)
  with assms show ?thesis
    by (simp add: parse_valid_name query_def provider_chain_def of_option_def)
qed

lemma resolve_span_revisited:
  assumes "valid_name n" "n \<in> set chain"
  shows "resolve_span d ps chain n draws =
     (Failure (CircularVariableReference (chain @ [n])), draws)"
  using assms by (cases d) (simp_all add: parse_valid_name Let_def)

lemma resolve_span_file_variable:
  assumes "valid_name n" "n \<notin> set chain" "fileVariables ps n = Some (raw_token m)"
    "valid_name m"
  shows "resolve_span (Suc d) ps chain n draws =
     (case resolve_span d ps (chain @ [n]) m draws of
        (out, draws') \<Rightarrow> (join_outcome (Value [] []) out, draws'))"
proof -
  have q: "query ps (parse_placeholder n) draws = Some (Found (raw_token m), draws)"
    using assms(1,3) by (rule query_file_variable)
  have p: "variableName (parse_placeholder n) = n"
    using assms(1) by (simp add: parse_valid_name)
  from assms(2) show ?thesis
    by (simp add: Let_def q p scan_raw_token [OF assms(4)])
qed

text \<open>
  Claim C6. Two plain names \<open>a\<close> and \<open>b\<close> are file variables, \<open>a\<close> defined as the
  placeholder of \<open>b\<close> and \<open>b\<close> as the placeholder of \<open>a\<close>. With a maximum depth of at
  least two, resolving a top-level span of \<open>a\<close> returns, and what it returns is the failure
  with the circular reference of the chain \<open>a, b, a\<close>; the field that is this span keeps
  its text, with that one diagnostic, and the clock and random source is untouched. The
  resolver is a total function whose recursion descends in the depth.
\<close>

theorem mutual_reference_is_circular:
  assumes "valid_name a" "valid_name b" "a \<noteq> b"
    and "fileVariables ps a = Some (raw_token b)"
    and "fileVariables ps b = Some (raw_token a)"
    and "2 \<le> maxDepth ps"
  shows "resolve_span (maxDepth ps) ps [] a draws =
     (Failure (CircularVariableReference [a, b, a]), draws) \<and>
   resolve_field ps (raw_token a) draws =
     (raw_token a, [CircularVariableReference [a, b, a]], draws)"
proof -
  from assms(6) obtain k where k: "maxDepth ps = Suc (Suc k)"
    by (metis Suc_le_D numeral_2_eq_2 Suc_le_mono)
  have third: "resolve_span k ps [a, b] a draws =
      (Failure (CircularVariableReference [a, b, a]), draws)"
    using resolve_span_revisited [OF assms(1), of "[a, b]" k ps draws] by simp
  have second: "resolve_span (Suc k) ps [a] b draws =
      (Failure (CircularVariableReference [a, b, a]), draws)"
    using resolve_span_file_variable [OF assms(2) _ assms(5) assms(1), of "[a]" k draws]
      assms(3) third by simp
  have first: "resolve_span (Suc (Suc k)) ps [] a draws =
      (Failure (CircularVariableReference [a, b, a]), draws)"
    using resolve_span_file_variable [OF assms(1) _ assms(4) assms(2), of "[]" "Suc k" draws]
      second by simp
  have field: "resolve_field ps (raw_token a) draws =
      (raw_token a, [CircularVariableReference [a, b, a]], draws)"
    by (simp add: resolve_field_def scan_raw_token [OF assms(1)] resolve_segment_def k first
        del: resolve_span.simps)
  from first field show ?thesis
    by (simp add: k del: resolve_span.simps)
qed

theorem mutual_reference_is_circular_witness:
  "resolve_span 4 example_providers [] ''a'' 0 =
     (Failure (CircularVariableReference [''a'', ''b'', ''a'']), 0) \<and>
   resolve_field example_providers ''{{a}}'' 0 =
     (''{{a}}'', [CircularVariableReference [''a'', ''b'', ''a'']], 0)"
proof -
  have v: "valid_name ''a''" "valid_name ''b''" "''a'' \<noteq> ''b''"
    by (simp_all add: valid_name_def is_name_char_def is_blank_char_def)
  have f: "fileVariables example_providers ''a'' = Some (raw_token ''b'')"
    "fileVariables example_providers ''b'' = Some (raw_token ''a'')"
    "2 \<le> maxDepth example_providers"
    by (simp_all add: example_providers_def raw_token_def)
  have d: "maxDepth example_providers = 4"
    by (simp add: example_providers_def)
  from mutual_reference_is_circular [OF v f, of 0]
  show ?thesis by (simp add: raw_token_def d del: resolve_span.simps)
qed

lemma resolve_fully_resolved:
  assumes "fully_resolved ps d"
  shows "resolve ps d draws = (d, map unresolved (descriptor_spans d), draws)"
proof -
  let ?un = "\<lambda>s. \<forall>i \<in> set (spans s). \<not> is_recognized ps (parse_placeholder i)"
  from assms have all: "\<forall>s \<in> set (descriptor_fields d). ?un s"
    by (auto simp: fully_resolved_def descriptor_spans_def)
  then have m: "?un (requestMethod d)" and u: "?un (url d)"
    by (simp_all add: descriptor_fields_def)
  from all have hs: "\<forall>h \<in> set (headers d). ?un (snd h)"
    by (auto simp: descriptor_fields_def)
  from all have b: "\<forall>tb. body d = Some (TextBody tb) \<longrightarrow> ?un tb"
    by (auto simp: descriptor_fields_def)
  from all have n: "\<forall>s. requestName d = Some s \<longrightarrow> ?un s"
    and p: "\<forall>s. preRequestScript d = Some s \<longrightarrow> ?un s"
    and t: "\<forall>s. testScript d = Some s \<longrightarrow> ?un s"
    by (auto simp: descriptor_fields_def)
  have spans_eq: "descriptor_spans d =
      spans (requestMethod d) @ spans (url d) @ concat (map spans (map snd (headers d))) @
      (case body d of Some (TextBody tb) \<Rightarrow> spans tb | _ \<Rightarrow> []) @
      (case requestName d of None \<Rightarrow> [] | Some s \<Rightarrow> spans s) @
      (case preRequestScript d of None \<Rightarrow> [] | Some s \<Rightarrow> spans s) @
      (case testScript d of None \<Rightarrow> [] | Some s \<Rightarrow> spans s)"
    by (simp add: descriptor_spans_def descriptor_fields_def
        split: option.splits body.splits)
  show ?thesis
    unfolding resolve_def spans_eq
    by (simp add: resolve_string_unrecognized [OF m] resolve_string_unrecognized [OF u]
        resolve_headers_unrecognized [OF hs] resolve_body_unrecognized [OF b]
        resolve_optional_unrecognized [OF n] resolve_optional_unrecognized [OF p]
        resolve_optional_unrecognized [OF t])
qed



end
